theory Spec2Isabelle
  imports Complex_Main "HOL-Library.Multiset" "HOL-Library.Word"
begin

section \<open>Protocol 77: the card-game engine\<close>

text \<open>
  A shallow embedding of the engine of the page component: deck construction and
  scoring, the Fisher-Yates shuffle, the integrity guard (\<open>normalize\<close>, \<open>takeUnique\<close>),
  the audit log and the reducer.

  Conventions of the embedding.
  \<^item> A TypeScript \<open>number\<close> that holds a score or a total is modelled twice. In the
    reducer it is a \<open>rat\<close>, the exact value in place of the double (\<open>round2\<close>,
    \<open>cardScore\<close>, \<open>handTotal\<close>). The scoring functions are also given in double
    precision (\<open>round2D\<close>, \<open>cardScoreD\<close>, \<open>handTotalD\<close>, over \<open>toDouble\<close>), where
    every product, sum and quotient is rounded as the machine rounds it. The two are
    linked: on hands of canonical cards \<open>handTotalD\<close> is the double nearest to
    \<open>handTotal\<close> (\<open>handTotalD_handTotal\<close>), and such doubles compare with each other and
    with 17 and 21 as the exact totals do (\<open>handTotalD_compare\<close>).
    Card values, ranks, the bankroll and the bet are \<open>int\<close>; counters and the seed are
    \<open>nat\<close>. \<open>Math.round x\<close> is \<open>\<lfloor>x + 1/2\<rfloor>\<close>.
  \<^item> \<open>crypto.getRandomValues\<close> is an explicit source: the sequence of 32-bit values it
    is going to return, consumed from the front. \<open>Date.now()\<close> is a parameter.
  \<^item> A \<open>Set<string>\<close> is a \<open>string set\<close>.
  \<^item> The record fields \<open>val\<close>, \<open>cid\<close>, \<open>logS\<close>, \<open>atS\<close> and \<open>noteS\<close> stand for the
    source's \<open>value\<close>, \<open>id\<close>, \<open>log\<close>, \<open>at\<close> and \<open>note\<close>, names that are taken in
    Isabelle; the fields of a snapshot carry the prefix \<open>sn\<close>.
\<close>

subsection \<open>Cards and scoring\<close>

datatype Suit = Spade | Heart | Diamond | Club | Crown | Key | Star

datatype Phase = LOBBY | PLAYER | DEALER | DONE

record Card =
  suit :: Suit
  val :: int
  rank :: int
  cid :: string

definition SUITS :: "Suit list" where
  "SUITS = [Spade, Heart, Diamond, Club, Crown, Key, Star]"

fun SUIT_RANK :: "Suit \<Rightarrow> int" where
  "SUIT_RANK Spade = 1"
| "SUIT_RANK Heart = 2"
| "SUIT_RANK Diamond = 3"
| "SUIT_RANK Club = 4"
| "SUIT_RANK Crown = 5"
| "SUIT_RANK Key = 6"
| "SUIT_RANK Star = 7"

fun suitName :: "Suit \<Rightarrow> string" where
  "suitName Spade = ''Spade''"
| "suitName Heart = ''Heart''"
| "suitName Diamond = ''Diamond''"
| "suitName Club = ''Club''"
| "suitName Crown = ''Crown''"
| "suitName Key = ''Key''"
| "suitName Star = ''Star''"

definition VALUES :: "int list" where
  "VALUES = map (\<lambda>i. int i + 1) [0..<11]"

definition BUST :: rat where
  "BUST = 21"

definition DEALER_STAND :: rat where
  "DEALER_STAND = 17"

definition MAX_BET :: int where
  "MAX_BET = 50"

text \<open>Template literals print numbers in decimal.\<close>

definition digitChar :: "nat \<Rightarrow> char" where
  "digitChar n = ''0123456789'' ! n"

fun natToString :: "nat \<Rightarrow> string" where
  "natToString n =
     (if n < 10 then [digitChar n] else natToString (n div 10) @ [digitChar (n mod 10)])"

declare natToString.simps [simp del]

definition intToString :: "int \<Rightarrow> string" where
  "intToString i = (if i < 0 then ''-'' @ natToString (nat (- i)) else natToString (nat i))"

definition MathRound :: "rat \<Rightarrow> int" where
  "MathRound x = \<lfloor>x + 1 / 2\<rfloor>"

definition round2 :: "rat \<Rightarrow> rat" where
  "round2 n = of_int (MathRound (n * 100)) / 100"

text \<open>\<open>toFixed(2)\<close> of a number: sign, integer part, point, two digits.\<close>

definition toFixed2 :: "rat \<Rightarrow> string" where
  "toFixed2 x =
     (let k = MathRound (x * 100); m = nat \<bar>k\<bar>
      in (if k < 0 then ''-'' else '''') @ natToString (m div 100) @ ''.''
         @ [digitChar (m mod 100 div 10), digitChar (m mod 10)])"

definition buildDeck :: "Card list" where
  "buildDeck =
     concat (map (\<lambda>s. map (\<lambda>v. \<lparr>suit = s, val = v, rank = SUIT_RANK s,
                                  cid = suitName s @ ''-'' @ intToString v\<rparr>) VALUES) SUITS)"

definition cardScore :: "Card \<Rightarrow> rat" where
  "cardScore c = round2 (of_int (val c) + of_int (rank c) / 100)"

definition handTotal :: "Card list \<Rightarrow> rat" where
  "handTotal hand = round2 (foldl (\<lambda>sum c. sum + cardScore c) 0 hand)"

definition clampBet :: "int \<Rightarrow> int" where
  "clampBet n = (if n < 0 then 0 else if n > MAX_BET then MAX_BET else n)"

subsection \<open>Scoring in double precision\<close>

text \<open>
  The three scoring functions once more, in the arithmetic the code runs them in:
  IEEE 754 binary64 with rounding to nearest, ties to even. A double is the rational
  it denotes, and \<open>toDouble\<close> rounds a rational to the nearest double: 53 significant
  bits, the last of them worth \<open>2 powi (expo x - 52)\<close>. The model is that of the normal
  range (magnitudes from \<open>2 powi -1022\<close> up to the overflow threshold, and zero), where
  every number of the engine lies. \<open>Math.round\<close> is exact, so it stays \<open>MathRound\<close>; the
  integers \<open>c.value\<close> and \<open>c.rank\<close> are doubles as they are.
\<close>

text \<open>\<open>expo x\<close> is the binary exponent of a positive \<open>x\<close>: \<open>2 powi expo x \<le> x < 2 powi (expo x + 1)\<close>.\<close>

function expoUp :: "rat \<Rightarrow> int" where
  "expoUp x = (if x < 2 then 0 else expoUp (x / 2) + 1)"
  by pat_completeness auto
termination
proof (relation "measure (\<lambda>x. nat \<lfloor>x\<rfloor>)")
  show "wf (measure (\<lambda>x::rat. nat \<lfloor>x\<rfloor>))" by simp
next
  fix x :: rat assume "\<not> x < 2"
  then have "\<lfloor>x / 2\<rfloor> < \<lfloor>x\<rfloor>" "0 < \<lfloor>x\<rfloor>" by linarith+
  then show "(x / 2, x) \<in> measure (\<lambda>x. nat \<lfloor>x\<rfloor>)" by simp
qed

function expoDown :: "rat \<Rightarrow> int" where
  "expoDown x = (if x \<le> 0 \<or> 1 \<le> x then 0 else expoDown (2 * x) - 1)"
  by pat_completeness auto
termination
proof (relation "measure (\<lambda>x. nat \<lfloor>1 / x\<rfloor>)")
  show "wf (measure (\<lambda>x::rat. nat \<lfloor>1 / x\<rfloor>))" by simp
next
  fix x :: rat assume "\<not> (x \<le> 0 \<or> 1 \<le> x)"
  then have x: "0 < x" "x < 1" by simp_all
  define y where "y = 1 / x"
  have y: "1 < y" using x by (simp add: y_def)
  have h: "1 / (2 * x) = y / 2" by (simp add: y_def)
  have pos: "0 < \<lfloor>y\<rfloor>" using y by linarith
  then have "(1::rat) \<le> of_int \<lfloor>y\<rfloor>" by linarith
  moreover have "y < of_int \<lfloor>y\<rfloor> + 1" by linarith
  ultimately have "y / 2 < of_int \<lfloor>y\<rfloor>" by linarith
  then have "\<lfloor>y / 2\<rfloor> < \<lfloor>y\<rfloor>" by (simp only: floor_less_iff)
  with pos have "\<lfloor>y / 2\<rfloor> < \<lfloor>y\<rfloor>" "0 < \<lfloor>y\<rfloor>" by simp_all
  then show "(2 * x, x) \<in> measure (\<lambda>x. nat \<lfloor>1 / x\<rfloor>)"
    unfolding in_measure h by (simp add: y_def)
qed

declare expoUp.simps [simp del] expoDown.simps [simp del]

definition expo :: "rat \<Rightarrow> int" where
  "expo x = (if 1 \<le> x then expoUp x else expoDown x)"

text \<open>Rounding to the nearest integer, a tie going to the even one.\<close>

definition roundEven :: "rat \<Rightarrow> int" where
  "roundEven y =
     (let f = \<lfloor>y\<rfloor>; d = y - of_int f
      in if d < 1 / 2 then f else if 1 / 2 < d then f + 1 else if even f then f else f + 1)"

definition toDoublePos :: "rat \<Rightarrow> rat" where
  "toDoublePos x = (let ulp = 2 powi (expo x - 52) in of_int (roundEven (x / ulp)) * ulp)"

definition toDouble :: "rat \<Rightarrow> rat" where
  "toDouble x = (if x = 0 then 0 else if x < 0 then - toDoublePos (- x) else toDoublePos x)"

text \<open>\<open>Math.round(n * 100) / 100\<close>\<close>

definition round2D :: "rat \<Rightarrow> rat" where
  "round2D n = toDouble (of_int (MathRound (toDouble (n * 100))) / 100)"

text \<open>\<open>round2(c.value + c.rank / 100)\<close>\<close>

definition cardScoreD :: "Card \<Rightarrow> rat" where
  "cardScoreD c = round2D (toDouble (of_int (val c) + toDouble (of_int (rank c) / 100)))"

text \<open>\<open>round2(hand.reduce((sum, c) => sum + cardScore(c), 0))\<close>\<close>

definition handTotalD :: "Card list \<Rightarrow> rat" where
  "handTotalD hand = round2D (foldl (\<lambda>sum c. toDouble (sum + cardScoreD c)) 0 hand)"

subsection \<open>The random source and the shuffle\<close>

type_synonym rng = "nat \<Rightarrow> 32 word"

text \<open>One call of \<open>crypto.getRandomValues\<close> on a \<open>Uint32Array(1)\<close>.\<close>

definition getRandomU32 :: "rng \<Rightarrow> 32 word \<times> rng" where
  "getRandomU32 r = (r 0, \<lambda>i. r (Suc i))"

definition cryptoSeed32 :: "rng \<Rightarrow> nat \<times> rng" where
  "cryptoSeed32 r = (let (x, r') = getRandomU32 r in (if unat x = 0 then 1 else unat x, r'))"

text \<open>The loop of \<open>shuffle\<close>, for \<open>i\<close> from the argument down to 1.\<close>

fun shuffleLoop :: "nat \<Rightarrow> 'a list \<Rightarrow> rng \<Rightarrow> 'a list \<times> rng" where
  "shuffleLoop 0 a r = (a, r)"
| "shuffleLoop (Suc k) a r =
     (let (x, r') = getRandomU32 r;
          i = Suc k;
          j = unat x mod (i + 1);
          tmp = a ! i
      in shuffleLoop k ((a[i := a ! j])[j := tmp]) r')"

definition shuffle :: "'a list \<Rightarrow> rng \<Rightarrow> 'a list \<times> rng" where
  "shuffle arr r = shuffleLoop (length arr - 1) arr r"


subsection \<open>The integrity guard\<close>

text \<open>The loop of \<open>hasDuplicatesById\<close> over the cards, with the set \<open>seen\<close>.\<close>

fun hasDupLoop :: "string set \<Rightarrow> Card list \<Rightarrow> bool" where
  "hasDupLoop seen [] = False"
| "hasDupLoop seen (c # cs) =
     (if cid c \<in> seen then True else hasDupLoop (insert (cid c) seen) cs)"

definition hasDuplicatesById :: "Card list \<Rightarrow> bool" where
  "hasDuplicatesById cards = hasDupLoop {} cards"

text \<open>\<open>for (const c of hand) inPlay.add(c.id)\<close>\<close>

definition addIds :: "Card list \<Rightarrow> string set \<Rightarrow> string set" where
  "addIds hand inPlay = fold (\<lambda>c acc. insert (cid c) acc) hand inPlay"

text \<open>
  \<open>shuffle(buildDeck().filter((c) => !blocked.has(c.id)))\<close>, the expression \<open>takeUnique\<close>,
  \<open>normalize\<close> and the SHUFFLE case rebuild a deck with.
\<close>

definition rebuildDeck :: "string set \<Rightarrow> rng \<Rightarrow> Card list \<times> rng" where
  "rebuildDeck blocked r = shuffle (filter (\<lambda>c. cid c \<notin> blocked) buildDeck) r"

text \<open>
  The \<open>while (taken.length < n)\<close> loop of \<open>takeUnique\<close>. It has no bound of its own: when
  every canonical id is blocked the rebuilt deck is empty and the loop goes on for ever,
  which is the value \<open>None\<close>. The result holds \<open>taken\<close>, \<open>rest\<close>, the caller's set
  \<open>inPlay\<close> as the loop leaves it, and what is left of the random source.
\<close>

partial_function (option) takeLoop ::
  "nat \<Rightarrow> Card list \<Rightarrow> Card list \<Rightarrow> string set \<Rightarrow> string set \<Rightarrow> nat \<Rightarrow> rng
     \<Rightarrow> (Card list \<times> Card list \<times> string set \<times> rng) option" where
  "takeLoop n d taken takenIds inPlay safety r =
     (if length taken < n then
        (let s1 = safety + 1;
             (d1, r1) = (if s1 > 500 then rebuildDeck (inPlay \<union> takenIds) r else (d, r));
             s2 = (if s1 > 500 then 0 else s1)
         in case d1 of
              [] \<Rightarrow>
                (let (d2, r2) = rebuildDeck (inPlay \<union> takenIds) r1
                 in takeLoop n d2 taken takenIds inPlay s2 r2)
            | c # d2 \<Rightarrow>
                if cid c \<in> inPlay then takeLoop n d2 taken takenIds inPlay s2 r1
                else if cid c \<in> takenIds then takeLoop n d2 taken takenIds inPlay s2 r1
                else takeLoop n d2 (taken @ [c]) (insert (cid c) takenIds)
                       (insert (cid c) inPlay) s2 r1)
      else Some (taken, d, inPlay, r))"

definition takeUnique ::
  "Card list \<Rightarrow> nat \<Rightarrow> string set \<Rightarrow> rng
     \<Rightarrow> (Card list \<times> Card list \<times> string set \<times> rng) option" where
  "takeUnique deck n inPlay r =
     (let (d, r1) = (if hasDuplicatesById deck then rebuildDeck inPlay r else (deck, r))
      in takeLoop n d [] {} inPlay 0 r1)"

subsection \<open>State, actions and the audit log\<close>

record Snapshot =
  snSeed :: nat
  snPhase :: Phase
  snDeck :: nat
  snBankroll :: int
  snBet :: int
  snPlayerTotal :: rat
  snDealerTotal :: rat
  snPlayerHand :: "string list"
  snDealerHand :: "string list"

record LogEntry =
  atS :: int
  kind :: string
  noteS :: string
  snapshot :: Snapshot

record State =
  seed :: nat
  phase :: Phase
  deck :: "Card list"
  playerHand :: "Card list"
  dealerHand :: "Card list"
  bankroll :: int
  bet :: int
  message :: string
  playerInitialBust :: bool
  logS :: "LogEntry list"
  logOpen :: bool

text \<open>The argument \<open>n: 1 | 2\<close> of DRAW.\<close>

datatype DrawCount = One | Two

fun drawN :: "DrawCount \<Rightarrow> nat" where
  "drawN One = 1"
| "drawN Two = 2"

datatype Action =
    RESET_RUN
  | SHUFFLE
  | TOGGLE_LOG
  | RESET_BET
  | BET_ADD int
  | BET_PLACE_CTA
  | START
  | DRAW DrawCount
  | STAND
  | DEALER_PLAY
  | NEXT_HAND

text \<open>
  What a transition can do instead of returning a state: run for ever in \<open>takeUnique\<close>, or
  throw a \<open>TypeError\<close> on reading a card that is \<open>undefined\<close>.
\<close>

datatype failure = NonTermination | TypeError

text \<open>The object literal of \<open>initialState\<close>, for the seed and the deck drawn at load time.\<close>

definition initialWith :: "nat \<Rightarrow> Card list \<Rightarrow> State" where
  "initialWith sd dk =
     \<lparr>seed = sd, phase = LOBBY, deck = dk, playerHand = [], dealerHand = [],
      bankroll = 10000, bet = 0, message = ''Place a bet to join the table.'',
      playerInitialBust = False, logS = [], logOpen = False\<rparr>"

definition initialState :: "rng \<Rightarrow> State" where
  "initialState r =
     (let (sd, r1) = cryptoSeed32 r;
          (dk, r2) = shuffle buildDeck r1
      in initialWith sd dk)"

definition snapshotOf :: "State \<Rightarrow> Snapshot" where
  "snapshotOf state =
     \<lparr>snSeed = seed state, snPhase = phase state, snDeck = length (deck state),
      snBankroll = bankroll state, snBet = bet state,
      snPlayerTotal = handTotal (playerHand state),
      snDealerTotal = handTotal (dealerHand state),
      snPlayerHand = map cid (playerHand state),
      snDealerHand = map cid (dealerHand state)\<rparr>"

definition pushLog :: "int \<Rightarrow> State \<Rightarrow> string \<Rightarrow> string \<Rightarrow> State" where
  "pushLog now state k n =
     (let entry = \<lparr>atS = now, kind = k, noteS = n, snapshot = snapshotOf state\<rparr>;
          next = logS state @ [entry];
          capped = (if length next > 200 then drop (length next - 200) next else next)
      in state\<lparr>logS := capped\<rparr>)"

text \<open>The loop of \<open>dedupeHand\<close>, with the set \<open>seen\<close> and the output so far.\<close>

fun dedupeLoop :: "string set \<Rightarrow> Card list \<Rightarrow> Card list \<Rightarrow> Card list" where
  "dedupeLoop seen out [] = out"
| "dedupeLoop seen out (c # cs) =
     (if cid c \<in> seen then dedupeLoop seen out cs
      else dedupeLoop (insert (cid c) seen) (out @ [c]) cs)"

definition dedupeHand :: "Card list \<Rightarrow> Card list" where
  "dedupeHand hand = dedupeLoop {} [] hand"

text \<open>
  \<open>sameIds p hand\<close> is the test \<open>p.length === hand.length && p.every((c, i) => c.id ===
  hand[i]?.id)\<close>. The test \<open>deck === state.deck\<close> compares references: it holds exactly
  when the deck was kept, since a rebuilt deck is a new array.
\<close>

definition sameIds :: "Card list \<Rightarrow> Card list \<Rightarrow> bool" where
  "sameIds p hand =
     (length p = length hand \<and> list_all (\<lambda>i. cid (p ! i) = cid (hand ! i)) [0..<length p])"

definition normalize :: "State \<Rightarrow> rng \<Rightarrow> State \<times> rng" where
  "normalize state r =
     (let p = dedupeHand (playerHand state);
          d = dedupeHand (dealerHand state);
          inPlay = addIds d (addIds p {});
          deckOk = (\<not> hasDuplicatesById (deck state)
                    \<and> list_all (\<lambda>c. cid c \<notin> inPlay) (deck state));
          (deck', r') = (if deckOk then (deck state, r) else rebuildDeck inPlay r);
          sameP = sameIds p (playerHand state);
          sameD = sameIds d (dealerHand state);
          sameDeck = deckOk
      in if sameP \<and> sameD \<and> sameDeck then (state, r')
         else (state\<lparr>playerHand := p, dealerHand := d, deck := deck'\<rparr>, r'))"

subsection \<open>The reducer\<close>

definition lobbyMessage :: string where
  "lobbyMessage = ''Place a bet to join the table.''"

definition dealtBustMessage :: string where
  "dealtBustMessage = ''Dealt bust. Only STAND is allowed.''"

definition yourTurnMessage :: string where
  "yourTurnMessage = ''Your turn. Draw 2, Draw 1, or Stand.''"

definition caseRESET_RUN :: "int \<Rightarrow> rng \<Rightarrow> failure + State" where
  "caseRESET_RUN now r =
     (let (sd, r1) = cryptoSeed32 r;
          (dk, r2) = shuffle buildDeck r1;
          reset = (initialWith sd dk)\<lparr>message := lobbyMessage\<rparr>
      in Inr (pushLog now reset ''RESET_RUN'' ''Reset run.''))"

definition caseSHUFFLE :: "int \<Rightarrow> State \<Rightarrow> rng \<Rightarrow> failure + State" where
  "caseSHUFFLE now state r =
     (let inPlay = addIds (dealerHand state) (addIds (playerHand state) {});
          safeDeck = filter (\<lambda>c. cid c \<notin> inPlay) buildDeck;
          (sd, r1) = cryptoSeed32 r;
          (dk, r2) = shuffle safeDeck r1;
          next = state\<lparr>seed := sd, deck := dk,
                   message :=
                     (if phase state = PLAYER
                      then (if playerInitialBust state then dealtBustMessage
                            else yourTurnMessage)
                      else if phase state = LOBBY then lobbyMessage
                      else message state)\<rparr>
      in Inr (pushLog now next ''SHUFFLE'' ''Shuffled deck (excluding in-play).''))"

definition caseRESET_BET :: "int \<Rightarrow> State \<Rightarrow> failure + State" where
  "caseRESET_BET now state =
     (if phase state \<noteq> LOBBY then Inr state
      else Inr (pushLog now (state\<lparr>bet := 0, message := lobbyMessage\<rparr>)
                  ''RESET_BET'' ''Reset bet to 0.''))"

definition caseBET_ADD :: "int \<Rightarrow> State \<Rightarrow> int \<Rightarrow> failure + State" where
  "caseBET_ADD now state inc =
     (if phase state \<noteq> LOBBY then Inr state
      else
        (let nextBet = clampBet (bet state + inc);
             next = state\<lparr>bet := nextBet,
                      message := (if nextBet > 0 then ''Bet set. Press START to deal.''
                                  else lobbyMessage)\<rparr>
         in Inr (pushLog now next ''BET_ADD''
                   (''Bet +'' @ intToString inc @ '' -> '' @ intToString nextBet @ ''.''))))"

definition caseBET_PLACE_CTA :: "int \<Rightarrow> State \<Rightarrow> failure + State" where
  "caseBET_PLACE_CTA now state =
     (if phase state \<noteq> LOBBY then Inr state
      else
        (let nextBet = (if bet state > 0 then bet state else 10);
             next = state\<lparr>bet := nextBet, message := ''Bet set. Press START to deal.''\<rparr>
         in Inr (pushLog now next ''BET_PLACE_CTA''
                   (''CTA placed bet -> '' @ intToString nextBet @ ''.''))))"

definition caseSTART :: "int \<Rightarrow> State \<Rightarrow> rng \<Rightarrow> failure + State" where
  "caseSTART now state r =
     (if phase state \<noteq> LOBBY then Inr state
      else if bet state \<le> 0
      then Inr (pushLog now (state\<lparr>message := ''You must place a bet first.''\<rparr>)
                  ''START_BLOCKED'' ''Start blocked: no bet.'')
      else if bet state > bankroll state
      then Inr (pushLog now (state\<lparr>message := ''Bet exceeds bankroll.''\<rparr>)
                  ''START_BLOCKED'' ''Start blocked: bet > bankroll.'')
      else
        (case takeUnique (deck state) 4 {} r of
           None \<Rightarrow> Inl NonTermination
         | Some (taken, rest, inPlay', r') \<Rightarrow>
             (case taken of
                t0 # t1 # t2 # t3 # ts \<Rightarrow>
                  (let p = [t0, t2];
                       d = [t1, t3];
                       pTot = handTotal p;
                       initBust = (pTot > BUST);
                       next = state\<lparr>phase := PLAYER, deck := rest, playerHand := p,
                                dealerHand := d, playerInitialBust := initBust,
                                message := (if initBust then dealtBustMessage
                                            else yourTurnMessage)\<rparr>
                   in Inr (pushLog now next ''START''
                             (''Dealt. Player '' @ toFixed2 pTot
                                @ (if initBust then '' (dealt bust)'' else [])
                                @ ''.'')))
              | _ \<Rightarrow> Inl TypeError)))"

definition caseDRAW :: "int \<Rightarrow> State \<Rightarrow> DrawCount \<Rightarrow> rng \<Rightarrow> failure + State" where
  "caseDRAW now state n r =
     (if phase state \<noteq> PLAYER then Inr state
      else if playerInitialBust state
      then Inr (pushLog now (state\<lparr>message := dealtBustMessage\<rparr>)
                  ''DRAW_BLOCKED'' ''Draw blocked: dealt bust.'')
      else if handTotal (playerHand state) > BUST then Inr state
      else
        (case takeUnique (deck state) (drawN n)
                (addIds (dealerHand state) (addIds (playerHand state) {})) r of
           None \<Rightarrow> Inl NonTermination
         | Some (taken, rest, inPlay', r') \<Rightarrow>
             (let nextHand = playerHand state @ taken;
                  pt = handTotal nextHand
              in if pt > BUST
                 then Inr (pushLog now
                        (state\<lparr>phase := DONE, deck := rest, playerHand := nextHand,
                           message := ''You bust ('' @ toFixed2 pt @ ''). You lose. (-''
                                        @ intToString (bet state) @ '' sats)'',
                           bankroll := bankroll state - bet state\<rparr>)
                        ''BUST_BY_HIT''
                        (''Player bust by hit at '' @ toFixed2 pt @ '' (-''
                           @ intToString (bet state) @ '').''))
                 else Inr (pushLog now
                        (state\<lparr>deck := rest, playerHand := nextHand,
                           message := yourTurnMessage\<rparr>)
                        ''DRAW''
                        (''Player drew '' @ natToString (drawN n) @ ''. Total now ''
                           @ toFixed2 pt @ ''.'')))))"

definition caseSTAND :: "int \<Rightarrow> State \<Rightarrow> failure + State" where
  "caseSTAND now state =
     (if phase state \<noteq> PLAYER then Inr state
      else Inr (pushLog now (state\<lparr>phase := DEALER, message := ''Dealer plays...''\<rparr>)
                  ''STAND'' ''Player stands. Dealer phase.''))"

text \<open>
  The \<open>while (dt < DEALER_STAND)\<close> loop of DEALER_PLAY over \<open>deck\<close>, \<open>dh\<close>, \<open>dt\<close> and
  \<open>draws\<close>; \<open>ph\<close> is \<open>state.playerHand\<close>.
\<close>

function dealerLoop ::
  "Card list \<Rightarrow> Card list \<Rightarrow> Card list \<Rightarrow> rat \<Rightarrow> nat \<Rightarrow> rng
     \<Rightarrow> failure + (Card list \<times> Card list \<times> rat)" where
  "dealerLoop ph deck0 dh dt draws r =
     (if dt < DEALER_STAND then
        (case takeUnique deck0 1 (addIds dh (addIds ph {})) r of
           None \<Rightarrow> Inl NonTermination
         | Some (taken, rest, inPlay', r') \<Rightarrow>
             (case taken of
                [] \<Rightarrow> Inl TypeError
              | t0 # ts \<Rightarrow>
                  (let dh' = dh @ [t0];
                       dt' = handTotal dh';
                       draws' = draws + 1
                   in if draws' > 50 then Inr (rest, dh', dt')
                      else dealerLoop ph rest dh' dt' draws' r')))
      else Inr (deck0, dh, dt))"
  by pat_completeness auto
termination
  by (relation "measure (\<lambda>(ph, deck0, dh, dt, draws, r). 51 - draws)") auto

declare dealerLoop.simps [simp del]

text \<open>The resolution of DEALER_PLAY once the dealer's hand is final.\<close>

definition resolveDealer ::
  "int \<Rightarrow> State \<Rightarrow> Card list \<Rightarrow> Card list \<Rightarrow> rat \<Rightarrow> State" where
  "resolveDealer now state deck1 dh dt =
     (let pt = handTotal (playerHand state);
          dealerBust = (dt > BUST);
          betS = intToString (bet state)
      in if playerInitialBust state then
           (if dealerBust
            then pushLog now
                   (state\<lparr>phase := DONE, deck := deck1, dealerHand := dh,
                      message := ''Dealer busts ('' @ toFixed2 dt @ ''). You win. (+''
                                   @ betS @ '' sats)'',
                      bankroll := bankroll state + bet state\<rparr>)
                   ''DEALT_BUST_WIN''
                   (''Dealt-bust exception win (dealer bust '' @ toFixed2 dt @ ''). +''
                      @ betS @ ''.'')
            else pushLog now
                   (state\<lparr>phase := DONE, deck := deck1, dealerHand := dh,
                      message := ''You were dealt bust ('' @ toFixed2 pt
                                   @ ''). Dealer stands ('' @ toFixed2 dt
                                   @ ''). You lose. (-'' @ betS @ '' sats)'',
                      bankroll := bankroll state - bet state\<rparr>)
                   ''DEALT_BUST_LOSS''
                   (''Dealt-bust loss (dealer '' @ toFixed2 dt @ ''). -'' @ betS @ ''.''))
         else if dealerBust
         then pushLog now
                (state\<lparr>phase := DONE, deck := deck1, dealerHand := dh,
                   message := ''Dealer busts ('' @ toFixed2 dt @ ''). You win. (+''
                                @ betS @ '' sats)'',
                   bankroll := bankroll state + bet state\<rparr>)
                ''DEALER_BUST_WIN''
                (''Dealer bust '' @ toFixed2 dt @ ''. +'' @ betS @ ''.'')
         else if pt > dt
         then pushLog now
                (state\<lparr>phase := DONE, deck := deck1, dealerHand := dh,
                   message := ''You win. (P '' @ toFixed2 pt @ '' vs D '' @ toFixed2 dt
                                @ '') (+'' @ betS @ '' sats)'',
                   bankroll := bankroll state + bet state\<rparr>)
                ''WIN''
                (''Win P '' @ toFixed2 pt @ '' vs D '' @ toFixed2 dt @ ''. +'' @ betS @ ''.'')
         else if pt < dt
         then pushLog now
                (state\<lparr>phase := DONE, deck := deck1, dealerHand := dh,
                   message := ''You lose. (P '' @ toFixed2 pt @ '' vs D '' @ toFixed2 dt
                                @ '') (-'' @ betS @ '' sats)'',
                   bankroll := bankroll state - bet state\<rparr>)
                ''LOSS''
                (''Loss P '' @ toFixed2 pt @ '' vs D '' @ toFixed2 dt @ ''. -'' @ betS @ ''.'')
         else pushLog now
                (state\<lparr>phase := DONE, deck := deck1, dealerHand := dh,
                   message := ''Push. (P '' @ toFixed2 pt @ '' vs D '' @ toFixed2 dt
                                @ '') (+0 sats)''\<rparr>)
                ''PUSH''
                (''Push P '' @ toFixed2 pt @ '' vs D '' @ toFixed2 dt @ ''.''))"

text \<open>The top-up of the dealer's hand to two cards, before the loop.\<close>

definition dealerTopUp ::
  "State \<Rightarrow> rng \<Rightarrow> (Card list \<times> Card list \<times> rng) option" where
  "dealerTopUp state r =
     (let dh = dealerHand state;
          inPlayBase = addIds dh (addIds (playerHand state) {})
      in if length dh < 2
         then (case takeUnique (deck state) (2 - length dh) inPlayBase r of
                 None \<Rightarrow> None
               | Some (taken, rest, inPlay', r') \<Rightarrow> Some (rest, dh @ taken, r'))
         else Some (deck state, dh, r))"

definition caseDEALER_PLAY :: "int \<Rightarrow> State \<Rightarrow> rng \<Rightarrow> failure + State" where
  "caseDEALER_PLAY now state r =
     (if phase state \<noteq> DEALER then Inr state
      else
        (case dealerTopUp state r of
           None \<Rightarrow> Inl NonTermination
         | Some (deck1, dh1, r1) \<Rightarrow>
             (case dealerLoop (playerHand state) deck1 dh1 (handTotal dh1) 0 r1 of
                Inl e \<Rightarrow> Inl e
              | Inr (deck2, dh2, dt) \<Rightarrow> Inr (resolveDealer now state deck2 dh2 dt))))"

definition caseNEXT_HAND :: "int \<Rightarrow> State \<Rightarrow> failure + State" where
  "caseNEXT_HAND now state =
     (if phase state \<noteq> DONE then Inr state
      else Inr (pushLog now
                  (state\<lparr>phase := LOBBY, bet := 0, playerHand := [], dealerHand := [],
                     playerInitialBust := False, message := lobbyMessage\<rparr>)
                  ''NEXT_HAND'' ''Next hand -> lobby.''))"

text \<open>
  \<open>reducer r now state0 action\<close>: one transition, with the random source \<open>r\<close> and the
  clock value \<open>now\<close> of that call.
\<close>

definition reducer :: "rng \<Rightarrow> int \<Rightarrow> State \<Rightarrow> Action \<Rightarrow> failure + State" where
  "reducer r now state0 action =
     (let (state, r1) = normalize state0 r
      in case action of
           RESET_RUN \<Rightarrow> caseRESET_RUN now r1
         | TOGGLE_LOG \<Rightarrow> Inr (state\<lparr>logOpen := \<not> logOpen state\<rparr>)
         | SHUFFLE \<Rightarrow> caseSHUFFLE now state r1
         | RESET_BET \<Rightarrow> caseRESET_BET now state
         | BET_ADD inc \<Rightarrow> caseBET_ADD now state inc
         | BET_PLACE_CTA \<Rightarrow> caseBET_PLACE_CTA now state
         | START \<Rightarrow> caseSTART now state r1
         | DRAW n \<Rightarrow> caseDRAW now state n r1
         | STAND \<Rightarrow> caseSTAND now state
         | DEALER_PLAY \<Rightarrow> caseDEALER_PLAY now state r1
         | NEXT_HAND \<Rightarrow> caseNEXT_HAND now state)"

text \<open>
  The states the engine can be in: the initial state of any load, and every state a
  transition returns from one of them.
\<close>

inductive reachable :: "State \<Rightarrow> bool" where
  init: "reachable (initialState r)"
| step: "reachable s \<Longrightarrow> reducer r now s a = Inr s' \<Longrightarrow> reachable s'"

section \<open>Auxiliary notions\<close>

text \<open>The total of a hand in hundredths.\<close>

definition centis :: "Card list \<Rightarrow> int" where
  "centis hand = sum_list (map (\<lambda>c. 100 * val c + rank c) hand)"

text \<open>
  A deck is clean for a set of blocked ids when its ids are pairwise distinct, none of
  them is blocked, and its cards are canonical.
\<close>

definition cleanDeck :: "Card list \<Rightarrow> string set \<Rightarrow> bool" where
  "cleanDeck d blocked \<longleftrightarrow>
     distinct (map cid d) \<and> cid ` set d \<inter> blocked = {} \<and> set d \<subseteq> set buildDeck"

text \<open>The ids of two hands, and the test of \<open>normalize\<close> that keeps the deck.\<close>

definition inPlayOf :: "Card list \<Rightarrow> Card list \<Rightarrow> string set" where
  "inPlayOf p d = cid ` set p \<union> cid ` set d"

definition deckKept :: "State \<Rightarrow> bool" where
  "deckKept s \<longleftrightarrow>
     distinct (map cid (deck s))
     \<and> cid ` set (deck s)
         \<inter> inPlayOf (dedupeHand (playerHand s)) (dedupeHand (dealerHand s)) = {}"

text \<open>The ids of the canonical deck.\<close>

definition canonicalIds :: "string set" where
  "canonicalIds = cid ` set buildDeck"

text \<open>
  What \<open>takeUnique\<close> promises for a loop state with the cards \<open>taken\<close> so far and the set
  \<open>inPlay\<close>: it returns, with the cards still to take appended, all of them new. The
  strong form holds from a clean deck and adds that the new cards are canonical and
  that the rest of the deck is clean again.
\<close>

definition takePostWeak ::
  "nat \<Rightarrow> Card list \<Rightarrow> string set
     \<Rightarrow> (Card list \<times> Card list \<times> string set \<times> rng) option \<Rightarrow> bool" where
  "takePostWeak n taken inPlay res \<longleftrightarrow>
     (\<exists>new rest r'. res = Some (taken @ new, rest, inPlay \<union> cid ` set new, r')
        \<and> length new = n - length taken \<and> distinct (map cid new)
        \<and> cid ` set new \<inter> inPlay = {})"

definition takePost ::
  "nat \<Rightarrow> Card list \<Rightarrow> string set
     \<Rightarrow> (Card list \<times> Card list \<times> string set \<times> rng) option \<Rightarrow> bool" where
  "takePost n taken inPlay res \<longleftrightarrow>
     (\<exists>new rest r'. res = Some (taken @ new, rest, inPlay \<union> cid ` set new, r')
        \<and> length new = n - length taken \<and> distinct (map cid new)
        \<and> cid ` set new \<inter> inPlay = {} \<and> set new \<subseteq> set buildDeck
        \<and> cleanDeck rest (inPlay \<union> cid ` set new))"

text \<open>The cards of a state: the deck, then the player's hand, then the dealer's.\<close>

definition allCards :: "State \<Rightarrow> Card list" where
  "allCards s = deck s @ playerHand s @ dealerHand s"

text \<open>
  The invariant of the reachable states: the cards are canonical with pairwise distinct
  ids, the hands are short, the bet is between 0 and 50 and the bankroll is not
  negative; while a hand is played the bet is covered by the bankroll and the dealer
  holds two cards; outside the lobby the player holds a card.
\<close>

definition wellFormed :: "State \<Rightarrow> bool" where
  "wellFormed s \<longleftrightarrow>
     distinct (map cid (allCards s))
     \<and> set (allCards s) \<subseteq> set buildDeck
     \<and> length (playerHand s) \<le> 23 \<and> length (dealerHand s) \<le> 18
     \<and> 0 \<le> bet s \<and> bet s \<le> 50 \<and> 0 \<le> bankroll s
     \<and> (phase s = PLAYER \<or> phase s = DEALER
          \<longrightarrow> bet s \<le> bankroll s \<and> length (dealerHand s) = 2)
     \<and> (phase s \<noteq> LOBBY \<longrightarrow> playerHand s \<noteq> [])"

text \<open>
  What the dealer's loop returns from the hand \<open>dh\<close>: the hand with the cards drawn
  appended, its total at least 17, every total before a draw below 17, and the cards
  still clean.
\<close>

definition dealerLoopPost ::
  "Card list \<Rightarrow> Card list \<Rightarrow> failure + (Card list \<times> Card list \<times> rat) \<Rightarrow> bool" where
  "dealerLoopPost ph dh res \<longleftrightarrow>
     (\<exists>deck1 extra.
        res = Inr (deck1, dh @ extra, handTotal (dh @ extra))
        \<and> DEALER_STAND \<le> handTotal (dh @ extra)
        \<and> list_all (\<lambda>k. handTotal (dh @ take k extra) < DEALER_STAND) [0..<length extra]
        \<and> cleanDeck deck1 (inPlayOf ph (dh @ extra))
        \<and> set extra \<subseteq> set buildDeck
        \<and> distinct (map cid (dh @ extra))
        \<and> cid ` set extra \<inter> cid ` set ph = {}
        \<and> length (dh @ extra) \<le> max (length dh) 17)"

text \<open>A deck and two hands of canonical cards with pairwise distinct ids.\<close>

definition cardsOK :: "Card list \<Rightarrow> Card list \<Rightarrow> Card list \<Rightarrow> bool" where
  "cardsOK dk p d \<longleftrightarrow>
     distinct (map cid (dk @ p @ d)) \<and> set (dk @ p @ d) \<subseteq> set buildDeck"

text \<open>
  A concrete play, for examples: the random source that always returns 0, the clock at
  0, and the state after a list of actions from the initial state of that source. A
  transition that fails would leave the state as it is.
\<close>

definition rZero :: rng where
  "rZero = (\<lambda>i. 0)"

definition after :: "State \<Rightarrow> Action \<Rightarrow> State" where
  "after s a = (case reducer rZero 0 s a of Inr s' \<Rightarrow> s' | Inl e \<Rightarrow> s)"

definition play :: "Action list \<Rightarrow> State" where
  "play as = foldl after (initialState rZero) as"

text \<open>
  Example states. \<open>mkCard\<close> is the card \<open>buildDeck\<close> pushes for a suit and a value. In
  \<open>dealtBustDraws\<close> the player was dealt 22.03 and stood; the dealer holds 16.03 and the
  next card of the deck is worth 7.02. In \<open>dealtBustStands\<close> the dealer holds 19.03
  instead. \<open>dealtBustTurn\<close> is the first of them while the player is still to act, and
  \<open>corruptTurn\<close> the same with the player's hand holding a card twice that is also in
  the deck.
\<close>

definition mkCard :: "Suit \<Rightarrow> int \<Rightarrow> Card" where
  "mkCard s v = \<lparr>suit = s, val = v, rank = SUIT_RANK s,
                 cid = suitName s @ ''-'' @ intToString v\<rparr>"

definition dealtBustDraws :: State where
  "dealtBustDraws =
     \<lparr>seed = 1, phase = DEALER, deck = [mkCard Heart 7, mkCard Heart 5],
      playerHand = [mkCard Spade 11, mkCard Heart 11],
      dealerHand = [mkCard Spade 10, mkCard Heart 6],
      bankroll = 10000, bet = 10, message = ''Dealer plays...'',
      playerInitialBust = True, logS = [], logOpen = False\<rparr>"

definition dealtBustStands :: State where
  "dealtBustStands = dealtBustDraws\<lparr>dealerHand := [mkCard Spade 10, mkCard Heart 9]\<rparr>"

definition dealtBustTurn :: State where
  "dealtBustTurn = dealtBustDraws\<lparr>phase := PLAYER, message := dealtBustMessage\<rparr>"

definition corruptTurn :: State where
  "corruptTurn =
     dealtBustTurn\<lparr>playerHand := [mkCard Spade 11, mkCard Heart 7, mkCard Spade 11]\<rparr>"

section \<open>Properties\<close>

subsection \<open>Scoring\<close>

text \<open>Scores in hundredths: the exact value of every score and total.\<close>

lemma MathRound_of_int: "MathRound (of_int k) = k"
  unfolding MathRound_def by linarith

lemma round2_hundredths: "round2 (of_int k / 100) = of_int k / 100"
  unfolding round2_def by (simp add: MathRound_of_int)

lemma round2_nearest:
  "\<exists>k::int. round2 x = of_int k / 100 \<and> x - 1 / 200 < round2 x \<and> round2 x \<le> x + 1 / 200"
proof -
  define k where "k = \<lfloor>x * 100 + 1 / 2\<rfloor>"
  have r: "round2 x = of_int k / 100"
    by (simp add: round2_def MathRound_def k_def)
  have "of_int k \<le> x * 100 + 1 / 2" "x * 100 + 1 / 2 < of_int k + 1"
    unfolding k_def by linarith+
  then have "x - 1 / 200 < of_int k / 100 \<and> of_int k / 100 \<le> x + 1 / 200"
    by (simp add: field_simps)
  with r show ?thesis by auto
qed

lemma cardScore_exact: "cardScore c = of_int (100 * val c + rank c) / 100"
proof -
  have "of_int (val c) + of_int (rank c) / 100 = (of_int (100 * val c + rank c) :: rat) / 100"
    by simp
  then show ?thesis
    unfolding cardScore_def by (simp only: round2_hundredths)
qed

lemma foldl_scores:
  "foldl (\<lambda>sum c. sum + cardScore c) a hand = a + sum_list (map cardScore hand)"
  by (induction hand arbitrary: a) (simp_all add: add.assoc)

lemma sum_scores_centis: "sum_list (map cardScore hand) = of_int (centis hand) / 100"
  by (induction hand) (simp_all add: centis_def cardScore_exact add_divide_distrib)

lemma handTotal_sum: "handTotal hand = round2 (sum_list (map cardScore hand))"
  by (simp add: handTotal_def foldl_scores)

lemma handTotal_centis: "handTotal hand = of_int (centis hand) / 100"
  by (simp add: handTotal_sum sum_scores_centis round2_hundredths)

lemma centis_append: "centis (xs @ ys) = centis xs + centis ys"
  by (simp add: centis_def)

lemma buildDeck_ids:
  "map cid buildDeck =
     [''Spade-1'', ''Spade-2'', ''Spade-3'', ''Spade-4'', ''Spade-5'', ''Spade-6'',
      ''Spade-7'', ''Spade-8'', ''Spade-9'', ''Spade-10'', ''Spade-11'',
      ''Heart-1'', ''Heart-2'', ''Heart-3'', ''Heart-4'', ''Heart-5'', ''Heart-6'',
      ''Heart-7'', ''Heart-8'', ''Heart-9'', ''Heart-10'', ''Heart-11'',
      ''Diamond-1'', ''Diamond-2'', ''Diamond-3'', ''Diamond-4'', ''Diamond-5'',
      ''Diamond-6'', ''Diamond-7'', ''Diamond-8'', ''Diamond-9'', ''Diamond-10'',
      ''Diamond-11'',
      ''Club-1'', ''Club-2'', ''Club-3'', ''Club-4'', ''Club-5'', ''Club-6'',
      ''Club-7'', ''Club-8'', ''Club-9'', ''Club-10'', ''Club-11'',
      ''Crown-1'', ''Crown-2'', ''Crown-3'', ''Crown-4'', ''Crown-5'', ''Crown-6'',
      ''Crown-7'', ''Crown-8'', ''Crown-9'', ''Crown-10'', ''Crown-11'',
      ''Key-1'', ''Key-2'', ''Key-3'', ''Key-4'', ''Key-5'', ''Key-6'',
      ''Key-7'', ''Key-8'', ''Key-9'', ''Key-10'', ''Key-11'',
      ''Star-1'', ''Star-2'', ''Star-3'', ''Star-4'', ''Star-5'', ''Star-6'',
      ''Star-7'', ''Star-8'', ''Star-9'', ''Star-10'', ''Star-11'']"
  by code_simp

lemma buildDeck_distinct: "distinct (map cid buildDeck)"
  unfolding buildDeck_ids by simp

lemma buildDeck_length: "length buildDeck = 77"
  using arg_cong [OF buildDeck_ids, of length] by simp

lemma buildDeck_centis: "list_all (\<lambda>c. 101 \<le> 100 * val c + rank c) buildDeck"
  by code_simp

lemma canonical_centis: "c \<in> set buildDeck \<Longrightarrow> 101 \<le> 100 * val c + rank c"
  using buildDeck_centis by (simp add: list_all_iff)

lemma centis_lower: "set hand \<subseteq> set buildDeck \<Longrightarrow> 101 * int (length hand) \<le> centis hand"
proof (induction hand)
  case Nil
  then show ?case by (simp add: centis_def)
next
  case (Cons c hand)
  then have "101 \<le> 100 * val c + rank c" "101 * int (length hand) \<le> centis hand"
    by (simp_all add: canonical_centis)
  then show ?case by (simp add: centis_def)
qed

subsection \<open>Duplicate detection and deduplication\<close>

lemma hasDupLoop_iff:
  "hasDupLoop seen cs \<longleftrightarrow> \<not> (distinct (map cid cs) \<and> cid ` set cs \<inter> seen = {})"
  by (induction cs arbitrary: seen) auto

lemma hasDuplicatesById_iff: "hasDuplicatesById cs \<longleftrightarrow> \<not> distinct (map cid cs)"
  by (simp add: hasDuplicatesById_def hasDupLoop_iff)

lemma addIds_eq: "addIds hand S = S \<union> cid ` set hand"
  unfolding addIds_def by (induction hand arbitrary: S) auto

lemma dedupeLoop_out: "dedupeLoop seen out cs = out @ dedupeLoop seen [] cs"
proof (induction cs arbitrary: seen out)
  case Nil
  show ?case by simp
next
  case (Cons c cs)
  show ?case
    using Cons.IH [of seen out] Cons.IH [of "insert (cid c) seen" "out @ [c]"]
      Cons.IH [of "insert (cid c) seen" "[c]"]
    by simp
qed

lemma dedupeLoop_props:
  "distinct (map cid (dedupeLoop seen [] cs))
   \<and> cid ` set (dedupeLoop seen [] cs) \<inter> seen = {}
   \<and> set (dedupeLoop seen [] cs) \<subseteq> set cs
   \<and> length (dedupeLoop seen [] cs) \<le> length cs"
proof (induction cs arbitrary: seen)
  case Nil
  show ?case by simp
next
  case (Cons c cs)
  show ?case
  proof (cases "cid c \<in> seen")
    case True
    with Cons.IH [of seen] show ?thesis by auto
  next
    case False
    have e: "dedupeLoop seen [] (c # cs) = c # dedupeLoop (insert (cid c) seen) [] cs"
      using False dedupeLoop_out [of "insert (cid c) seen" "[c]" cs] by simp
    from Cons.IH [of "insert (cid c) seen"] False show ?thesis
      unfolding e by auto
  qed
qed

lemma dedupeLoop_same_length:
  "length (dedupeLoop seen [] cs) = length cs \<Longrightarrow> dedupeLoop seen [] cs = cs"
proof (induction cs arbitrary: seen)
  case Nil
  show ?case by simp
next
  case (Cons c cs)
  show ?case
  proof (cases "cid c \<in> seen")
    case True
    with Cons.prems dedupeLoop_props [of seen cs] show ?thesis by simp
  next
    case False
    have e: "dedupeLoop seen [] (c # cs) = c # dedupeLoop (insert (cid c) seen) [] cs"
      using False dedupeLoop_out [of "insert (cid c) seen" "[c]" cs] by simp
    from Cons.prems Cons.IH [of "insert (cid c) seen"] show ?thesis
      unfolding e by simp
  qed
qed

lemma dedupeLoop_distinct:
  "distinct (map cid cs) \<Longrightarrow> cid ` set cs \<inter> seen = {} \<Longrightarrow> dedupeLoop seen [] cs = cs"
proof (induction cs arbitrary: seen)
  case Nil
  show ?case by simp
next
  case (Cons c cs)
  then have n: "cid c \<notin> seen" by auto
  have e: "dedupeLoop seen [] (c # cs) = c # dedupeLoop (insert (cid c) seen) [] cs"
    using n dedupeLoop_out [of "insert (cid c) seen" "[c]" cs] by simp
  have "dedupeLoop (insert (cid c) seen) [] cs = cs"
    using Cons.prems by (intro Cons.IH) auto
  with e show ?case by simp
qed

lemma dedupeHand_distinct: "distinct (map cid (dedupeHand hand))"
  using dedupeLoop_props [of "{}" hand] by (simp add: dedupeHand_def)

lemma dedupeHand_subset: "set (dedupeHand hand) \<subseteq> set hand"
  using dedupeLoop_props [of "{}" hand] by (simp add: dedupeHand_def)

lemma dedupeHand_length: "length (dedupeHand hand) \<le> length hand"
  using dedupeLoop_props [of "{}" hand] by (simp add: dedupeHand_def)

lemma dedupeHand_id: "distinct (map cid hand) \<Longrightarrow> dedupeHand hand = hand"
  by (simp add: dedupeHand_def dedupeLoop_distinct)

lemma sameIds_dedupe: "sameIds (dedupeHand hand) hand \<Longrightarrow> dedupeHand hand = hand"
  by (simp add: sameIds_def dedupeHand_def dedupeLoop_same_length)

lemma sameIds_refl: "sameIds hand hand"
  by (simp add: sameIds_def list_all_iff)

subsection \<open>The shuffle is a permutation\<close>

lemma shuffleLoop_mset: "k < length a \<Longrightarrow> mset (fst (shuffleLoop k a r)) = mset a"
proof (induction k arbitrary: a r)
  case 0
  show ?case by simp
next
  case (Suc k)
  define j where "j = unat (r 0) mod (Suc k + 1)"
  define a' where "a' = (a[Suc k := a ! j])[j := a ! Suc k]"
  have "j < Suc k + 1" by (simp add: j_def)
  then have j: "j < length a" using Suc.prems by linarith
  have m: "mset a' = mset a"
    unfolding a'_def using Suc.prems j by (simp add: mset_swap)
  have "k < length a'" using Suc.prems by (simp add: a'_def)
  from Suc.IH [OF this] m show ?case
    by (simp add: getRandomU32_def a'_def j_def Let_def)
qed

lemma shuffle_mset: "mset (fst (shuffle arr r)) = mset arr"
proof (cases arr)
  case Nil
  then show ?thesis by (simp add: shuffle_def)
next
  case (Cons x xs)
  then show ?thesis by (simp add: shuffle_def shuffleLoop_mset)
qed

lemma shuffle_set: "set (fst (shuffle arr r)) = set arr"
  using shuffle_mset [of arr r] by (metis set_mset_mset)

lemma shuffle_length: "length (fst (shuffle arr r)) = length arr"
  using shuffle_mset [of arr r] by (metis size_mset)

lemma shuffle_distinct_ids:
  "distinct (map cid (fst (shuffle arr r))) = distinct (map cid arr)"
proof -
  have "mset (map cid (fst (shuffle arr r))) = mset (map cid arr)"
    by (simp add: shuffle_mset)
  then show ?thesis by (rule mset_eq_imp_distinct_iff)
qed

subsection \<open>Rebuilt decks\<close>

lemma rebuildDeck_set:
  "set (fst (rebuildDeck blocked r)) = {c \<in> set buildDeck. cid c \<notin> blocked}"
  by (simp add: rebuildDeck_def shuffle_set)

lemma rebuildDeck_distinct: "distinct (map cid (fst (rebuildDeck blocked r)))"
  by (simp add: rebuildDeck_def shuffle_distinct_ids distinct_map_filter buildDeck_distinct)

lemma filter_blocked_length:
  "length (filter (\<lambda>c. cid c \<notin> blocked) buildDeck)
     = 77 - card (blocked \<inter> cid ` set buildDeck)"
proof -
  let ?in = "filter (\<lambda>c. cid c \<in> blocked) buildDeck"
  have d: "distinct (map cid ?in)"
    by (simp add: distinct_map_filter buildDeck_distinct)
  have "set (map cid ?in) = blocked \<inter> cid ` set buildDeck" by auto
  then have "card (blocked \<inter> cid ` set buildDeck) = length (map cid ?in)"
    using distinct_card [OF d] by simp
  moreover have "length ?in + length (filter (\<lambda>c. cid c \<notin> blocked) buildDeck) = 77"
    using sum_length_filter_compl [of "\<lambda>c. cid c \<in> blocked" buildDeck]
    by (simp add: buildDeck_length)
  ultimately show ?thesis by simp
qed

lemma rebuildDeck_length:
  "length (fst (rebuildDeck blocked r)) = 77 - card (blocked \<inter> cid ` set buildDeck)"
  by (simp add: rebuildDeck_def shuffle_length filter_blocked_length)

lemma rebuildDeck_clean: "cleanDeck (fst (rebuildDeck blocked r)) blocked"
  unfolding cleanDeck_def using rebuildDeck_set [of blocked r] rebuildDeck_distinct [of blocked r]
  by auto

subsection \<open>normalize\<close>

lemma list_all_unblocked: "list_all (\<lambda>c. cid c \<notin> S) dk \<longleftrightarrow> cid ` set dk \<inter> S = {}"
  by (auto simp add: list_all_iff)

lemma addIds_inPlayOf: "addIds d (addIds p {}) = inPlayOf p d"
  by (simp add: addIds_eq inPlayOf_def)

lemma normalize_fields:
  "normalize s r =
     (s\<lparr>playerHand := dedupeHand (playerHand s), dealerHand := dedupeHand (dealerHand s),
        deck := (if deckKept s then deck s
                 else fst (rebuildDeck (inPlayOf (dedupeHand (playerHand s))
                                          (dedupeHand (dealerHand s))) r))\<rparr>,
      if deckKept s then r
      else snd (rebuildDeck (inPlayOf (dedupeHand (playerHand s))
                               (dedupeHand (dealerHand s))) r))"
proof (cases "sameIds (dedupeHand (playerHand s)) (playerHand s)
    \<and> sameIds (dedupeHand (dealerHand s)) (dealerHand s) \<and> deckKept s")
  case True
  then have "dedupeHand (playerHand s) = playerHand s" "dedupeHand (dealerHand s) = dealerHand s"
    by (auto intro: sameIds_dedupe)
  with True show ?thesis
    by (simp add: normalize_def Let_def hasDuplicatesById_iff list_all_unblocked
        addIds_inPlayOf deckKept_def)
next
  case False
  then show ?thesis
    by (auto simp add: normalize_def Let_def hasDuplicatesById_iff list_all_unblocked
        addIds_inPlayOf deckKept_def split_beta)
qed

lemma normalize_valid:
  assumes "distinct (map cid (playerHand s))" "distinct (map cid (dealerHand s))"
    "distinct (map cid (deck s))"
    "cid ` set (deck s) \<inter> (cid ` set (playerHand s) \<union> cid ` set (dealerHand s)) = {}"
  shows "normalize s r = (s, r)"
proof -
  have p: "dedupeHand (playerHand s) = playerHand s" "dedupeHand (dealerHand s) = dealerHand s"
    using assms by (simp_all add: dedupeHand_id)
  have k: "deckKept s"
    using assms unfolding deckKept_def p inPlayOf_def by blast
  show ?thesis unfolding normalize_fields p using k by simp
qed

lemma normalize_output_valid:
  assumes "normalize s r = (s', r')"
  shows "distinct (map cid (playerHand s'))" "distinct (map cid (dealerHand s'))"
    "distinct (map cid (deck s'))"
    "cid ` set (deck s') \<inter> (cid ` set (playerHand s') \<union> cid ` set (dealerHand s')) = {}"
proof -
  let ?p = "dedupeHand (playerHand s)" and ?d = "dedupeHand (dealerHand s)"
  let ?dk = "if deckKept s then deck s else fst (rebuildDeck (inPlayOf ?p ?d) r)"
  from assms have s': "s' = s\<lparr>playerHand := ?p, dealerHand := ?d, deck := ?dk\<rparr>"
    unfolding normalize_fields by simp
  show "distinct (map cid (playerHand s'))" "distinct (map cid (dealerHand s'))"
    by (simp_all add: s' dedupeHand_distinct)
  have c: "cleanDeck (fst (rebuildDeck (inPlayOf ?p ?d) r)) (inPlayOf ?p ?d)"
    by (rule rebuildDeck_clean)
  show "distinct (map cid (deck s'))"
    using c by (simp add: s' deckKept_def cleanDeck_def)
  show "cid ` set (deck s') \<inter> (cid ` set (playerHand s') \<union> cid ` set (dealerHand s')) = {}"
    using c by (simp add: s' deckKept_def cleanDeck_def inPlayOf_def)
qed

subsection \<open>takeUnique\<close>

lemma canonicalIds_finite: "finite canonicalIds"
  by (simp add: canonicalIds_def)

lemma card_insert_canonical:
  "card (insert x S \<inter> canonicalIds) \<le> card (S \<inter> canonicalIds) + 1"
proof -
  have "insert x S \<inter> canonicalIds \<subseteq> insert x (S \<inter> canonicalIds)" by auto
  then have "card (insert x S \<inter> canonicalIds) \<le> card (insert x (S \<inter> canonicalIds))"
    by (intro card_mono) (simp_all add: canonicalIds_finite)
  also have "\<dots> \<le> card (S \<inter> canonicalIds) + 1"
    by (simp add: card_insert_le_m1 canonicalIds_finite card_insert_if)
  finally show ?thesis .
qed

lemma rebuildDeck_nonempty:
  "card (blocked \<inter> canonicalIds) < 77 \<Longrightarrow> fst (rebuildDeck blocked r) \<noteq> []"
  using rebuildDeck_length [of blocked r] by (auto simp add: canonicalIds_def)

lemma takeLoop_done:
  "\<not> length taken < n \<Longrightarrow> takeLoop n d taken takenIds inPlay safety r = Some (taken, d, inPlay, r)"
  by (subst takeLoop.simps) simp

lemma takeLoop_step:
  assumes "length taken < n" "takenIds \<subseteq> inPlay"
  shows "takeLoop n d taken takenIds inPlay safety r =
     (let d1 = (if safety + 1 > 500 then fst (rebuildDeck inPlay r) else d);
          r1 = (if safety + 1 > 500 then snd (rebuildDeck inPlay r) else r);
          s2 = (if safety + 1 > 500 then 0 else safety + 1)
      in case d1 of
           [] \<Rightarrow> takeLoop n (fst (rebuildDeck inPlay r1)) taken takenIds inPlay s2
                   (snd (rebuildDeck inPlay r1))
         | c # d2 \<Rightarrow>
             if cid c \<in> inPlay then takeLoop n d2 taken takenIds inPlay s2 r1
             else takeLoop n d2 (taken @ [c]) (insert (cid c) takenIds)
                    (insert (cid c) inPlay) s2 r1)"
proof -
  have u: "inPlay \<union> takenIds = inPlay" using assms(2) by auto
  have t: "\<And>c. cid c \<notin> inPlay \<Longrightarrow> cid c \<notin> takenIds" using assms(2) by auto
  show ?thesis
    by (subst takeLoop.simps) (auto simp add: assms(1) u t Let_def split_beta split: list.splits)
qed

text \<open>The four ways one iteration of the loop goes on.\<close>

lemma takeLoop_step_rebuild:
  assumes "length taken < n" "takenIds \<subseteq> inPlay" "safety + 1 > 500"
    "fst (rebuildDeck inPlay r) = c # d2" "cid c \<notin> inPlay"
  shows "takeLoop n d taken takenIds inPlay safety r =
     takeLoop n d2 (taken @ [c]) (insert (cid c) takenIds) (insert (cid c) inPlay) 0
       (snd (rebuildDeck inPlay r))"
  using assms(3-5) by (subst takeLoop_step [OF assms(1,2)]) simp

lemma takeLoop_step_empty:
  assumes "length taken < n" "takenIds \<subseteq> inPlay" "\<not> safety + 1 > 500"
  shows "takeLoop n [] taken takenIds inPlay safety r =
     takeLoop n (fst (rebuildDeck inPlay r)) taken takenIds inPlay (safety + 1)
       (snd (rebuildDeck inPlay r))"
  using assms(3) by (subst takeLoop_step [OF assms(1,2)]) simp

lemma takeLoop_step_skip:
  assumes "length taken < n" "takenIds \<subseteq> inPlay" "\<not> safety + 1 > 500" "cid c \<in> inPlay"
  shows "takeLoop n (c # d2) taken takenIds inPlay safety r =
     takeLoop n d2 taken takenIds inPlay (safety + 1) r"
  using assms(3,4) by (subst takeLoop_step [OF assms(1,2)]) simp

lemma takeLoop_step_take:
  assumes "length taken < n" "takenIds \<subseteq> inPlay" "\<not> safety + 1 > 500" "cid c \<notin> inPlay"
  shows "takeLoop n (c # d2) taken takenIds inPlay safety r =
     takeLoop n d2 (taken @ [c]) (insert (cid c) takenIds) (insert (cid c) inPlay)
       (safety + 1) r"
  using assms(3,4) by (subst takeLoop_step [OF assms(1,2)]) simp

lemma takePost_cons:
  assumes "takePost n (taken @ [c]) (insert (cid c) inPlay) res"
    "cid c \<notin> inPlay" "c \<in> set buildDeck" "length taken < n"
  shows "takePost n taken inPlay res"
proof -
  from assms(1) obtain new rest r' where
    res: "res = Some ((taken @ [c]) @ new, rest, insert (cid c) inPlay \<union> cid ` set new, r')"
    and len: "length new = n - length (taken @ [c])" and dis: "distinct (map cid new)"
    and dj: "cid ` set new \<inter> insert (cid c) inPlay = {}" and cn: "set new \<subseteq> set buildDeck"
    and cl: "cleanDeck rest (insert (cid c) inPlay \<union> cid ` set new)"
    unfolding takePost_def by blast
  have 1: "res = Some (taken @ (c # new), rest, inPlay \<union> cid ` set (c # new), r')"
    using res by simp
  have 2: "length (c # new) = n - length taken" using len assms(4) by simp
  have 3: "distinct (map cid (c # new))" using dis dj by auto
  have 4: "cid ` set (c # new) \<inter> inPlay = {}" using dj assms(2) by auto
  have 5: "set (c # new) \<subseteq> set buildDeck" using cn assms(3) by simp
  have 6: "cleanDeck rest (inPlay \<union> cid ` set (c # new))" using cl by simp
  show ?thesis unfolding takePost_def using 1 2 3 4 5 6 by blast
qed

lemma takePostWeak_cons:
  assumes "takePostWeak n (taken @ [c]) (insert (cid c) inPlay) res"
    "cid c \<notin> inPlay" "length taken < n"
  shows "takePostWeak n taken inPlay res"
proof -
  from assms(1) obtain new rest r' where
    res: "res = Some ((taken @ [c]) @ new, rest, insert (cid c) inPlay \<union> cid ` set new, r')"
    and len: "length new = n - length (taken @ [c])" and dis: "distinct (map cid new)"
    and dj: "cid ` set new \<inter> insert (cid c) inPlay = {}"
    unfolding takePostWeak_def by blast
  have 1: "res = Some (taken @ (c # new), rest, inPlay \<union> cid ` set (c # new), r')"
    using res by simp
  have 2: "length (c # new) = n - length taken" using len assms(3) by simp
  have 3: "distinct (map cid (c # new))" using dis dj by auto
  have 4: "cid ` set (c # new) \<inter> inPlay = {}" using dj assms(2) by auto
  show ?thesis unfolding takePostWeak_def using 1 2 3 4 by blast
qed

lemma takePost_weaken: "takePost n taken inPlay res \<Longrightarrow> takePostWeak n taken inPlay res"
  unfolding takePost_def takePostWeak_def by blast

lemma cleanDeck_tail:
  "cleanDeck (c # d2) inPlay \<Longrightarrow> cleanDeck d2 (insert (cid c) inPlay)"
  unfolding cleanDeck_def by auto

lemma cleanDeck_head:
  "cleanDeck (c # d2) inPlay \<Longrightarrow> cid c \<notin> inPlay \<and> c \<in> set buildDeck"
  unfolding cleanDeck_def by auto

text \<open>From a clean deck the loop returns, whatever the counter.\<close>

lemma takeLoop_clean:
  assumes "n - length taken = k" "cleanDeck d inPlay" "takenIds \<subseteq> inPlay"
    "card (inPlay \<inter> canonicalIds) + k \<le> 77"
  shows "takePost n taken inPlay (takeLoop n d taken takenIds inPlay safety r)"
  using assms
proof (induction k arbitrary: d taken takenIds inPlay safety r)
  case 0
  then have "\<not> length taken < n" by simp
  then have "takeLoop n d taken takenIds inPlay safety r = Some (taken, d, inPlay, r)"
    by (rule takeLoop_done)
  moreover have "n - length taken = 0" using "0.prems"(1) .
  ultimately show ?case
    unfolding takePost_def using "0.prems"(2) by simp
next
  case (Suc k)
  have lt: "length taken < n" using Suc.prems(1) by simp
  note sub = Suc.prems(3)
  have room: "card (inPlay \<inter> canonicalIds) < 77" using Suc.prems(4) by simp
  text \<open>Taking the head of a clean deck, then the induction hypothesis.\<close>
  have H: "takePost n taken inPlay
      (takeLoop n d2 (taken @ [c]) (insert (cid c) takenIds) (insert (cid c) inPlay) s2 r1)"
    if cl: "cleanDeck (c # d2) inPlay" for c d2 s2 r1
  proof -
    have "card (insert (cid c) inPlay \<inter> canonicalIds) + k \<le> 77"
      using card_insert_canonical [of "cid c" inPlay] Suc.prems(4) by simp
    moreover have "n - length (taken @ [c]) = k" using Suc.prems(1) by simp
    moreover have "insert (cid c) takenIds \<subseteq> insert (cid c) inPlay" using sub by auto
    ultimately have ih: "takePost n (taken @ [c]) (insert (cid c) inPlay)
        (takeLoop n d2 (taken @ [c]) (insert (cid c) takenIds) (insert (cid c) inPlay) s2 r1)"
      using cleanDeck_tail [OF cl] by (intro Suc.IH)
    have hd: "cid c \<notin> inPlay" "c \<in> set buildDeck"
      using cleanDeck_head [OF cl] by simp_all
    show ?thesis by (rule takePost_cons [OF ih hd lt])
  qed
  text \<open>An iteration that rebuilds the deck first.\<close>
  have R: "takePost n taken inPlay (takeLoop n d' taken takenIds inPlay s' r'')"
    if big: "s' + 1 > 500" for d' s' r''
  proof -
    obtain c d2 where e: "fst (rebuildDeck inPlay r'') = c # d2"
      using rebuildDeck_nonempty [OF room, of r''] by (cases "fst (rebuildDeck inPlay r'')") auto
    have cl: "cleanDeck (c # d2) inPlay" using rebuildDeck_clean [of inPlay r''] e by simp
    have hd: "cid c \<notin> inPlay" using cleanDeck_head [OF cl] by simp
    show ?thesis
      unfolding takeLoop_step_rebuild [OF lt sub big e hd] by (rule H [OF cl])
  qed
  text \<open>An iteration on a clean deck that is not empty.\<close>
  have Q: "takePost n taken inPlay (takeLoop n d' taken takenIds inPlay s' r'')"
    if cl: "cleanDeck d' inPlay" and ne: "d' \<noteq> []" for d' s' r''
  proof (cases "s' + 1 > 500")
    case True
    then show ?thesis by (rule R)
  next
    case False
    obtain c d2 where e: "d' = c # d2" using ne by (cases d') auto
    have hd: "cid c \<notin> inPlay" using cleanDeck_head [of c d2 inPlay] cl e by simp
    show ?thesis
      unfolding e takeLoop_step_take [OF lt sub False hd] using cl e by (intro H) simp
  qed
  show ?case
  proof (cases "safety + 1 > 500")
    case True
    then show ?thesis by (rule R)
  next
    case small: False
    show ?thesis
    proof (cases "d = []")
      case True
      show ?thesis
        unfolding True takeLoop_step_empty [OF lt sub small]
        using rebuildDeck_clean [of inPlay r] rebuildDeck_nonempty [OF room, of r] by (rule Q)
    next
      case False
      with Suc.prems(2) show ?thesis by (rule Q)
    qed
  qed
qed

text \<open>From any deck the loop returns: a deck that is not clean only gets shorter.\<close>

lemma takeLoop_any:
  assumes "length d = m" "takenIds \<subseteq> inPlay"
    "card (inPlay \<inter> canonicalIds) + (n - length taken) \<le> 77"
  shows "takePostWeak n taken inPlay (takeLoop n d taken takenIds inPlay safety r)"
  using assms
proof (induction m arbitrary: d taken takenIds inPlay safety r rule: less_induct)
  case (less m)
  note sub = less.prems(2)
  show ?case
  proof (cases "length taken < n")
    case False
    then have "takeLoop n d taken takenIds inPlay safety r = Some (taken, d, inPlay, r)"
      by (rule takeLoop_done)
    with False show ?thesis unfolding takePostWeak_def by simp
  next
    case lt: True
    have room: "card (inPlay \<inter> canonicalIds) < 77" using less.prems(3) lt by simp
    have bound: "card (insert (cid c) inPlay \<inter> canonicalIds) + (n - length (taken @ [c])) \<le> 77"
      for c
      using card_insert_canonical [of "cid c" inPlay] less.prems(3) lt by simp
    have sub': "insert (cid c) takenIds \<subseteq> insert (cid c) inPlay" for c
      using sub by auto
    show ?thesis
    proof (cases "safety + 1 > 500")
      case True
      obtain c d2 where e: "fst (rebuildDeck inPlay r) = c # d2"
        using rebuildDeck_nonempty [OF room, of r] by (cases "fst (rebuildDeck inPlay r)") auto
      have cl: "cleanDeck (c # d2) inPlay" using rebuildDeck_clean [of inPlay r] e by simp
      have hd: "cid c \<notin> inPlay" using cleanDeck_head [OF cl] by simp
      have "takePost n (taken @ [c]) (insert (cid c) inPlay)
          (takeLoop n d2 (taken @ [c]) (insert (cid c) takenIds) (insert (cid c) inPlay) 0
             (snd (rebuildDeck inPlay r)))"
        using cleanDeck_tail [OF cl] sub' bound by (rule takeLoop_clean [OF refl])
      then have "takePostWeak n (taken @ [c]) (insert (cid c) inPlay)
          (takeLoop n d2 (taken @ [c]) (insert (cid c) takenIds) (insert (cid c) inPlay) 0
             (snd (rebuildDeck inPlay r)))"
        by (rule takePost_weaken)
      then show ?thesis
        unfolding takeLoop_step_rebuild [OF lt sub True e hd]
        using hd lt by (rule takePostWeak_cons)
    next
      case small: False
      show ?thesis
      proof (cases d)
        case Nil
        have "takePost n taken inPlay
            (takeLoop n (fst (rebuildDeck inPlay r)) taken takenIds inPlay (safety + 1)
               (snd (rebuildDeck inPlay r)))"
          using rebuildDeck_clean [of inPlay r] sub less.prems(3)
          by (rule takeLoop_clean [OF refl])
        then show ?thesis
          unfolding Nil takeLoop_step_empty [OF lt sub small] by (rule takePost_weaken)
      next
        case (Cons c d2)
        have sh: "length d2 < m" using less.prems(1) Cons by simp
        show ?thesis
        proof (cases "cid c \<in> inPlay")
          case True
          show ?thesis
            unfolding Cons takeLoop_step_skip [OF lt sub small True]
            using sub less.prems(3) by (rule less.IH [OF sh refl])
        next
          case False
          have "takePostWeak n (taken @ [c]) (insert (cid c) inPlay)
              (takeLoop n d2 (taken @ [c]) (insert (cid c) takenIds) (insert (cid c) inPlay)
                 (safety + 1) r)"
            using sub' bound by (rule less.IH [OF sh refl])
          then show ?thesis
            unfolding Cons takeLoop_step_take [OF lt sub small False]
            using False lt by (rule takePostWeak_cons)
        qed
      qed
    qed
  qed
qed

lemma canonicalIds_card: "card canonicalIds = 77"
proof -
  have "card (set (map cid buildDeck)) = length (map cid buildDeck)"
    using buildDeck_distinct by (rule distinct_card)
  then show ?thesis by (simp add: canonicalIds_def buildDeck_length)
qed

lemma blocked_canonical_le: "card (S \<inter> canonicalIds) \<le> 77"
  using card_mono [of canonicalIds "S \<inter> canonicalIds"]
  by (simp add: canonicalIds_finite canonicalIds_card)

lemma blocked_canonical_le_length:
  "card (inPlayOf p d \<inter> canonicalIds) \<le> length p + length d"
proof -
  have "card (inPlayOf p d \<inter> canonicalIds) \<le> card (inPlayOf p d)"
    by (intro card_mono) (simp_all add: inPlayOf_def)
  also have "\<dots> \<le> card (cid ` set p) + card (cid ` set d)"
    unfolding inPlayOf_def by (rule card_Un_le)
  also have "\<dots> \<le> length p + length d"
    by (intro add_mono) (metis card_length length_map set_map)+
  finally show ?thesis .
qed

lemma takeUnique_any:
  assumes "card (inPlay \<inter> canonicalIds) + n \<le> 77"
  shows "takePostWeak n [] inPlay (takeUnique deck0 n inPlay r)"
proof (cases "hasDuplicatesById deck0")
  case True
  have "takePostWeak n [] inPlay
      (takeLoop n (fst (rebuildDeck inPlay r)) [] {} inPlay 0 (snd (rebuildDeck inPlay r)))"
    using assms by (intro takeLoop_any [OF refl]) simp_all
  with True show ?thesis by (simp add: takeUnique_def split_beta)
next
  case False
  have "takePostWeak n [] inPlay (takeLoop n deck0 [] {} inPlay 0 r)"
    using assms by (intro takeLoop_any [OF refl]) simp_all
  with False show ?thesis by (simp add: takeUnique_def)
qed

lemma takeUnique_clean:
  assumes "cleanDeck deck0 inPlay" "card (inPlay \<inter> canonicalIds) + n \<le> 77"
  shows "takePost n [] inPlay (takeUnique deck0 n inPlay r)"
proof -
  have "\<not> hasDuplicatesById deck0"
    using assms(1) by (simp add: hasDuplicatesById_iff cleanDeck_def)
  moreover have "takePost n [] inPlay (takeLoop n deck0 [] {} inPlay 0 r)"
    using assms by (intro takeLoop_clean [OF refl]) simp_all
  ultimately show ?thesis by (simp add: takeUnique_def)
qed

subsection \<open>The audit log leaves the game alone\<close>

lemma pushLog_fields [simp]:
  "seed (pushLog now s k n) = seed s"
  "phase (pushLog now s k n) = phase s"
  "deck (pushLog now s k n) = deck s"
  "playerHand (pushLog now s k n) = playerHand s"
  "dealerHand (pushLog now s k n) = dealerHand s"
  "bankroll (pushLog now s k n) = bankroll s"
  "bet (pushLog now s k n) = bet s"
  "message (pushLog now s k n) = message s"
  "playerInitialBust (pushLog now s k n) = playerInitialBust s"
  "logOpen (pushLog now s k n) = logOpen s"
  by (simp_all add: pushLog_def Let_def)

lemma pushLog_log:
  "logS (pushLog now s k n) =
     (let next = logS s @ [\<lparr>atS = now, kind = k, noteS = n, snapshot = snapshotOf s\<rparr>]
      in if length next > 200 then drop (length next - 200) next else next)"
  by (simp add: pushLog_def Let_def)

lemma pushLog_last:
  "last (logS (pushLog now s k n)) = \<lparr>atS = now, kind = k, noteS = n, snapshot = snapshotOf s\<rparr>"
  by (simp add: pushLog_log Let_def)

lemma pushLog_length: "length (logS (pushLog now s k n)) = min 200 (length (logS s) + 1)"
  by (simp add: pushLog_log Let_def)

lemma allCards_pushLog [simp]: "allCards (pushLog now s k n) = allCards s"
  by (simp add: allCards_def)

lemma wellFormed_pushLog [simp]: "wellFormed (pushLog now s k n) = wellFormed s"
  by (simp add: wellFormed_def)

lemma wellFormed_normalize: "wellFormed s \<Longrightarrow> normalize s r = (s, r)"
  by (rule normalize_valid) (auto simp add: wellFormed_def allCards_def)

lemma wellFormed_cleanDeck: "wellFormed s \<Longrightarrow> cleanDeck (deck s) (inPlayOf (playerHand s) (dealerHand s))"
  by (auto simp add: wellFormed_def allCards_def cleanDeck_def inPlayOf_def)

subsection \<open>Totals of canonical hands\<close>

lemma handTotal_less_iff: "handTotal hand < of_int k \<longleftrightarrow> centis hand < 100 * k"
proof -
  have "handTotal hand < of_int k \<longleftrightarrow> (of_int (centis hand) :: rat) < of_int (100 * k)"
    by (simp add: handTotal_centis field_simps)
  then show ?thesis by (simp only: of_int_less_iff)
qed

lemma handTotal_le_iff: "handTotal hand \<le> of_int k \<longleftrightarrow> centis hand \<le> 100 * k"
proof -
  have "handTotal hand \<le> of_int k \<longleftrightarrow> (of_int (centis hand) :: rat) \<le> of_int (100 * k)"
    by (simp add: handTotal_centis field_simps)
  then show ?thesis by (simp only: of_int_le_iff)
qed

lemma below_stand_short:
  assumes "set hand \<subseteq> set buildDeck" "handTotal hand < DEALER_STAND"
  shows "length hand \<le> 16"
proof -
  have "centis hand < 1700"
    using assms(2) handTotal_less_iff [of hand 17] by (simp add: DEALER_STAND_def)
  with centis_lower [OF assms(1)] show ?thesis by linarith
qed

lemma long_hand_stands:
  assumes "set hand \<subseteq> set buildDeck" "17 \<le> length hand"
  shows "DEALER_STAND \<le> handTotal hand"
  using below_stand_short [OF assms(1)] assms(2) by fastforce

lemma not_bust_short:
  assumes "set hand \<subseteq> set buildDeck" "\<not> handTotal hand > BUST"
  shows "length hand \<le> 20"
proof -
  have "centis hand \<le> 2100"
    using assms(2) handTotal_le_iff [of hand 21] by (simp add: BUST_def)
  with centis_lower [OF assms(1)] show ?thesis by linarith
qed

subsection \<open>The dealer's loop\<close>

lemma dealerLoop_stop:
  "\<not> dt < DEALER_STAND \<Longrightarrow> dealerLoop ph deck0 dh dt draws r = Inr (deck0, dh, dt)"
  by (subst dealerLoop.simps) simp

lemma dealerLoop_draw:
  assumes "dt < DEALER_STAND" "takeUnique deck0 1 (inPlayOf ph dh) r = Some ([t0], rest, ip, r')"
    "draws + 1 \<le> 50"
  shows "dealerLoop ph deck0 dh dt draws r =
     dealerLoop ph rest (dh @ [t0]) (handTotal (dh @ [t0])) (draws + 1) r'"
  using assms by (subst dealerLoop.simps) (simp add: addIds_inPlayOf Let_def)

lemma inPlayOf_snoc: "inPlayOf ph (dh @ [t]) = inPlayOf ph dh \<union> cid ` set [t]"
  by (auto simp add: inPlayOf_def)

lemma dealerLoopPost_cons:
  assumes "dealerLoopPost ph (dh @ [t0]) res" "handTotal dh < DEALER_STAND"
    "t0 \<in> set buildDeck" "cid t0 \<notin> cid ` set ph" "length dh \<le> 16"
  shows "dealerLoopPost ph dh res"
proof -
  from assms(1) obtain deck1 extra where
    res: "res = Inr (deck1, (dh @ [t0]) @ extra, handTotal ((dh @ [t0]) @ extra))"
    and st: "DEALER_STAND \<le> handTotal ((dh @ [t0]) @ extra)"
    and pre: "list_all (\<lambda>k. handTotal ((dh @ [t0]) @ take k extra) < DEALER_STAND)
                [0..<length extra]"
    and cl: "cleanDeck deck1 (inPlayOf ph ((dh @ [t0]) @ extra))"
    and cn: "set extra \<subseteq> set buildDeck"
    and di: "distinct (map cid ((dh @ [t0]) @ extra))"
    and dj: "cid ` set extra \<inter> cid ` set ph = {}"
    and ln: "length ((dh @ [t0]) @ extra) \<le> max (length (dh @ [t0])) 17"
    unfolding dealerLoopPost_def by blast
  let ?e = "t0 # extra"
  have 1: "res = Inr (deck1, dh @ ?e, handTotal (dh @ ?e))" using res by simp
  have 2: "DEALER_STAND \<le> handTotal (dh @ ?e)" using st by simp
  have 3: "list_all (\<lambda>k. handTotal (dh @ take k ?e) < DEALER_STAND) [0..<length ?e]"
    unfolding list_all_iff
  proof
    fix k assume "k \<in> set [0..<length ?e]"
    then have k: "k < Suc (length extra)" by auto
    show "handTotal (dh @ take k ?e) < DEALER_STAND"
    proof (cases k)
      case 0
      then show ?thesis using assms(2) by simp
    next
      case (Suc j)
      then have "j < length extra" using k by simp
      then have "handTotal ((dh @ [t0]) @ take j extra) < DEALER_STAND"
        using pre by (simp add: list_all_iff)
      then show ?thesis using Suc by simp
    qed
  qed
  have 4: "cleanDeck deck1 (inPlayOf ph (dh @ ?e))" using cl by simp
  have 5: "set ?e \<subseteq> set buildDeck" using cn assms(3) by simp
  have 6: "distinct (map cid (dh @ ?e))" using di by simp
  have 7: "cid ` set ?e \<inter> cid ` set ph = {}" using dj assms(4) by simp
  have 8: "length (dh @ ?e) \<le> max (length dh) 17" using ln assms(5) by simp
  show ?thesis unfolding dealerLoopPost_def using 1 2 3 4 5 6 7 8 by blast
qed

lemma dealerLoop_post:
  assumes "17 - length dh = k" "cleanDeck deck0 (inPlayOf ph dh)" "set dh \<subseteq> set buildDeck"
    "distinct (map cid dh)" "length ph \<le> 23" "draws \<le> length dh"
  shows "dealerLoopPost ph dh (dealerLoop ph deck0 dh (handTotal dh) draws r)"
  using assms
proof (induction k arbitrary: deck0 dh draws r)
  case 0
  then have "DEALER_STAND \<le> handTotal dh" by (intro long_hand_stands) simp_all
  then have "dealerLoop ph deck0 dh (handTotal dh) draws r = Inr (deck0, dh, handTotal dh)"
    by (intro dealerLoop_stop) simp
  moreover have "dealerLoopPost ph dh (Inr (deck0, dh @ [], handTotal (dh @ [])))"
    unfolding dealerLoopPost_def using "0.prems" \<open>DEALER_STAND \<le> handTotal dh\<close> by simp
  ultimately show ?case by simp
next
  case (Suc k)
  show ?case
  proof (cases "handTotal dh < DEALER_STAND")
    case False
    then have "dealerLoop ph deck0 dh (handTotal dh) draws r = Inr (deck0, dh, handTotal dh)"
      by (rule dealerLoop_stop)
    moreover have "dealerLoopPost ph dh (Inr (deck0, dh @ [], handTotal (dh @ [])))"
      unfolding dealerLoopPost_def using Suc.prems False by simp
    ultimately show ?thesis by simp
  next
    case True
    have short: "length dh \<le> 16" using Suc.prems(3) True by (rule below_stand_short)
    have "card (inPlayOf ph dh \<inter> canonicalIds) + 1 \<le> 77"
      using blocked_canonical_le_length [of ph dh] Suc.prems(5) short by simp
    with Suc.prems(2) have "takePost 1 [] (inPlayOf ph dh) (takeUnique deck0 1 (inPlayOf ph dh) r)"
      by (rule takeUnique_clean)
    then obtain new rest r' where
      tk: "takeUnique deck0 1 (inPlayOf ph dh) r = Some (new, rest, inPlayOf ph dh \<union> cid ` set new, r')"
      and len: "length new = 1" and dj: "cid ` set new \<inter> inPlayOf ph dh = {}"
      and cn: "set new \<subseteq> set buildDeck"
      and cl: "cleanDeck rest (inPlayOf ph dh \<union> cid ` set new)"
      unfolding takePost_def by auto
    from len obtain t0 where new: "new = [t0]" by (cases new) auto
    have t0: "t0 \<in> set buildDeck" "cid t0 \<notin> cid ` set ph" "cid t0 \<notin> cid ` set dh"
      using cn dj by (auto simp add: new inPlayOf_def)
    have step: "dealerLoop ph deck0 dh (handTotal dh) draws r =
        dealerLoop ph rest (dh @ [t0]) (handTotal (dh @ [t0])) (draws + 1) r'"
      using True tk Suc.prems(6) short unfolding new by (intro dealerLoop_draw) simp_all
    have "dealerLoopPost ph (dh @ [t0])
        (dealerLoop ph rest (dh @ [t0]) (handTotal (dh @ [t0])) (draws + 1) r')"
    proof (rule Suc.IH)
      show "17 - length (dh @ [t0]) = k" using Suc.prems(1) by simp
      show "cleanDeck rest (inPlayOf ph (dh @ [t0]))" using cl by (simp add: inPlayOf_snoc new)
      show "set (dh @ [t0]) \<subseteq> set buildDeck" using Suc.prems(3) t0 by simp
      show "distinct (map cid (dh @ [t0]))" using Suc.prems(4) t0 by simp
      show "length ph \<le> 23" by (rule Suc.prems(5))
      show "draws + 1 \<le> length (dh @ [t0])" using Suc.prems(6) by simp
    qed
    then show ?thesis
      unfolding step using True t0(1,2) short by (rule dealerLoopPost_cons)
  qed
qed

subsection \<open>The transitions keep the invariant\<close>

lemma wellFormed_cards:
  "wellFormed s \<longleftrightarrow>
     cardsOK (deck s) (playerHand s) (dealerHand s)
     \<and> length (playerHand s) \<le> 23 \<and> length (dealerHand s) \<le> 18
     \<and> 0 \<le> bet s \<and> bet s \<le> 50 \<and> 0 \<le> bankroll s
     \<and> (phase s = PLAYER \<or> phase s = DEALER
          \<longrightarrow> bet s \<le> bankroll s \<and> length (dealerHand s) = 2)
     \<and> (phase s \<noteq> LOBBY \<longrightarrow> playerHand s \<noteq> [])"
  by (simp add: wellFormed_def cardsOK_def allCards_def)

lemma cardsOK_cleanDeck: "cardsOK dk p d \<Longrightarrow> cleanDeck dk (inPlayOf p d)"
  by (auto simp add: cardsOK_def cleanDeck_def inPlayOf_def)

lemma cardsOK_rebuilt:
  assumes "cardsOK dk p d"
  shows "cardsOK (fst (rebuildDeck (inPlayOf p d) r)) p d"
proof -
  have "cleanDeck (fst (rebuildDeck (inPlayOf p d) r)) (inPlayOf p d)"
    by (rule rebuildDeck_clean)
  with assms show ?thesis
    by (auto simp add: cardsOK_def cleanDeck_def inPlayOf_def)
qed

lemma cardsOK_taken:
  assumes "cardsOK dk p d" "distinct (map cid new)" "cid ` set new \<inter> inPlayOf p d = {}"
    "set new \<subseteq> set buildDeck" "cleanDeck rest (inPlayOf p d \<union> cid ` set new)"
  shows "cardsOK rest (p @ new) d" "cardsOK rest p (d @ new)"
  using assms by (auto simp add: cardsOK_def cleanDeck_def inPlayOf_def)

lemma cardsOK_deal:
  assumes "distinct (map cid [t0, t1, t2, t3])" "set [t0, t1, t2, t3] \<subseteq> set buildDeck"
    "cleanDeck rest (cid ` set [t0, t1, t2, t3])"
  shows "cardsOK rest [t0, t2] [t1, t3]"
  using assms by (auto simp add: cardsOK_def cleanDeck_def)

lemma length4: "length xs = 4 \<Longrightarrow> \<exists>a b c d. xs = [a, b, c, d]"
  by (cases xs; simp) (metis (no_types) length_0_conv length_Suc_conv numeral_3_eq_3)

lemma caseSTART_wellFormed:
  assumes "wellFormed s" "phase s = LOBBY" "0 < bet s" "bet s \<le> bankroll s"
  shows "\<exists>s'. caseSTART now s r = Inr s' \<and> wellFormed s' \<and> phase s' = PLAYER
           \<and> bet s' = bet s \<and> bankroll s' = bankroll s
           \<and> kind (last (logS s')) = ''START''"
proof -
  have ok: "cardsOK (deck s) (playerHand s) (dealerHand s)"
    using assms(1) by (simp add: wellFormed_cards)
  then have "cleanDeck (deck s) {}" by (simp add: cardsOK_def cleanDeck_def)
  then have "takePost 4 [] {} (takeUnique (deck s) 4 {} r)"
    by (rule takeUnique_clean) simp
  then obtain new rest r' where
    tk: "takeUnique (deck s) 4 {} r = Some (new, rest, cid ` set new, r')"
    and len: "length new = 4" and di: "distinct (map cid new)"
    and cn: "set new \<subseteq> set buildDeck" and cl: "cleanDeck rest (cid ` set new)"
    unfolding takePost_def by auto
  from length4 [OF len] obtain t0 t1 t2 t3 where new: "new = [t0, t1, t2, t3]" by blast
  have ck: "cardsOK rest [t0, t2] [t1, t3]"
    using di cn cl unfolding new by (rule cardsOK_deal)
  have "\<exists>s'. caseSTART now s r = Inr s' \<and> deck s' = rest \<and> playerHand s' = [t0, t2]
      \<and> dealerHand s' = [t1, t3] \<and> phase s' = PLAYER \<and> bet s' = bet s
      \<and> bankroll s' = bankroll s \<and> kind (last (logS s')) = ''START''"
    using assms(2-4) by (simp add: caseSTART_def tk new Let_def pushLog_last)
  then obtain s' where s': "caseSTART now s r = Inr s'" "deck s' = rest"
    "playerHand s' = [t0, t2]" "dealerHand s' = [t1, t3]" "phase s' = PLAYER"
    "bet s' = bet s" "bankroll s' = bankroll s" "kind (last (logS s')) = ''START''"
    by blast
  have "wellFormed s'"
    unfolding wellFormed_cards s' using ck assms by (simp add: wellFormed_cards)
  with s' show ?thesis by blast
qed

lemma caseDRAW_wellFormed:
  assumes "wellFormed s"
  shows "\<exists>s'. caseDRAW now s n r = Inr s' \<and> wellFormed s'"
proof (cases "phase s \<noteq> PLAYER \<or> playerInitialBust s \<or> handTotal (playerHand s) > BUST")
  case True
  then show ?thesis using assms by (auto simp add: caseDRAW_def wellFormed_cards)
next
  case False
  have ok: "cardsOK (deck s) (playerHand s) (dealerHand s)"
    and pl: "bet s \<le> bankroll s" "length (dealerHand s) = 2" "0 \<le> bet s" "bet s \<le> 50"
      "0 \<le> bankroll s" "playerHand s \<noteq> []"
    using assms False by (auto simp add: wellFormed_cards)
  have "set (playerHand s) \<subseteq> set buildDeck" using ok by (simp add: cardsOK_def)
  then have short: "length (playerHand s) \<le> 20" using False by (intro not_bust_short) simp_all
  have dn: "drawN n \<le> 2" by (cases n) simp_all
  let ?ip = "inPlayOf (playerHand s) (dealerHand s)"
  have "card (?ip \<inter> canonicalIds) + drawN n \<le> 77"
    using blocked_canonical_le_length [of "playerHand s" "dealerHand s"] short pl(2) dn by simp
  with cardsOK_cleanDeck [OF ok] have "takePost (drawN n) [] ?ip (takeUnique (deck s) (drawN n) ?ip r)"
    by (rule takeUnique_clean)
  then obtain new rest r' where
    tk: "takeUnique (deck s) (drawN n) ?ip r = Some (new, rest, ?ip \<union> cid ` set new, r')"
    and len: "length new = drawN n" and di: "distinct (map cid new)"
    and dj: "cid ` set new \<inter> ?ip = {}"
    and cn: "set new \<subseteq> set buildDeck" and cl: "cleanDeck rest (?ip \<union> cid ` set new)"
    unfolding takePost_def by auto
  have ck: "cardsOK rest (playerHand s @ new) (dealerHand s)"
    using ok di dj cn cl by (rule cardsOK_taken)
  have "\<exists>s'. caseDRAW now s n r = Inr s' \<and> deck s' = rest
      \<and> playerHand s' = playerHand s @ new \<and> dealerHand s' = dealerHand s
      \<and> bet s' = bet s
      \<and> (phase s' = PLAYER \<and> bankroll s' = bankroll s
           \<or> phase s' = DONE \<and> bankroll s' = bankroll s - bet s)"
    using False by (simp add: caseDRAW_def addIds_inPlayOf tk Let_def)
  then obtain s' where s': "caseDRAW now s n r = Inr s'" "deck s' = rest"
    "playerHand s' = playerHand s @ new" "dealerHand s' = dealerHand s" "bet s' = bet s"
    and ph: "phase s' = PLAYER \<and> bankroll s' = bankroll s
           \<or> phase s' = DONE \<and> bankroll s' = bankroll s - bet s"
    by blast
  have "wellFormed s'"
    unfolding wellFormed_cards s' using ck pl short len dn ph False by auto
  with s' show ?thesis by blast
qed

lemma resolveDealer_fields [simp]:
  "phase (resolveDealer now s dk dh dt) = DONE"
  "deck (resolveDealer now s dk dh dt) = dk"
  "dealerHand (resolveDealer now s dk dh dt) = dh"
  "playerHand (resolveDealer now s dk dh dt) = playerHand s"
  "bet (resolveDealer now s dk dh dt) = bet s"
  "playerInitialBust (resolveDealer now s dk dh dt) = playerInitialBust s"
  "seed (resolveDealer now s dk dh dt) = seed s"
  "logOpen (resolveDealer now s dk dh dt) = logOpen s"
  by (simp_all add: resolveDealer_def Let_def)

lemma resolveDealer_bankroll:
  "bankroll (resolveDealer now s dk dh dt) =
     (if playerInitialBust s
      then (if dt > BUST then bankroll s + bet s else bankroll s - bet s)
      else if dt > BUST then bankroll s + bet s
      else if handTotal (playerHand s) > dt then bankroll s + bet s
      else if handTotal (playerHand s) < dt then bankroll s - bet s
      else bankroll s)"
  by (simp add: resolveDealer_def Let_def)

lemma resolveDealer_bankroll_cases:
  "bankroll (resolveDealer now s dk dh dt) = bankroll s + bet s
   \<or> bankroll (resolveDealer now s dk dh dt) = bankroll s - bet s
   \<or> bankroll (resolveDealer now s dk dh dt) = bankroll s"
  by (simp add: resolveDealer_bankroll)

lemma caseDEALER_PLAY_wellFormed:
  assumes "wellFormed s" "phase s = DEALER"
  shows "\<exists>deck1 extra.
           caseDEALER_PLAY now s r =
             Inr (resolveDealer now s deck1 (dealerHand s @ extra)
                    (handTotal (dealerHand s @ extra)))
           \<and> DEALER_STAND \<le> handTotal (dealerHand s @ extra)
           \<and> list_all (\<lambda>k. handTotal (dealerHand s @ take k extra) < DEALER_STAND)
                [0..<length extra]
           \<and> length extra \<le> 15
           \<and> wellFormed (resolveDealer now s deck1 (dealerHand s @ extra)
                    (handTotal (dealerHand s @ extra)))"
proof -
  let ?ph = "playerHand s" and ?dh = "dealerHand s"
  have ok: "cardsOK (deck s) ?ph ?dh"
    and pl: "bet s \<le> bankroll s" "length ?dh = 2" "0 \<le> bet s" "bet s \<le> 50"
      "0 \<le> bankroll s" "?ph \<noteq> []" "length ?ph \<le> 23"
    using assms by (auto simp add: wellFormed_cards)
  have top: "dealerTopUp s r = Some (deck s, ?dh, r)"
    using pl(2) by (simp add: dealerTopUp_def Let_def)
  have "dealerLoopPost ?ph ?dh (dealerLoop ?ph (deck s) ?dh (handTotal ?dh) 0 r)"
    using cardsOK_cleanDeck [OF ok] ok pl(7)
    by (intro dealerLoop_post [OF refl]) (auto simp add: cardsOK_def)
  then obtain deck1 extra where
    res: "dealerLoop ?ph (deck s) ?dh (handTotal ?dh) 0 r
            = Inr (deck1, ?dh @ extra, handTotal (?dh @ extra))"
    and st: "DEALER_STAND \<le> handTotal (?dh @ extra)"
    and pre: "list_all (\<lambda>k. handTotal (?dh @ take k extra) < DEALER_STAND) [0..<length extra]"
    and cl: "cleanDeck deck1 (inPlayOf ?ph (?dh @ extra))"
    and cn: "set extra \<subseteq> set buildDeck"
    and di: "distinct (map cid (?dh @ extra))"
    and dj: "cid ` set extra \<inter> cid ` set ?ph = {}"
    and ln: "length (?dh @ extra) \<le> max (length ?dh) 17"
    unfolding dealerLoopPost_def by blast
  let ?s' = "resolveDealer now s deck1 (?dh @ extra) (handTotal (?dh @ extra))"
  have run: "caseDEALER_PLAY now s r = Inr ?s'"
    using assms(2) by (simp add: caseDEALER_PLAY_def top res)
  have le: "length extra \<le> 15" using ln pl(2) by simp
  have ck: "cardsOK deck1 ?ph (?dh @ extra)"
    using ok cl cn di dj by (auto simp add: cardsOK_def cleanDeck_def inPlayOf_def)
  have bk: "0 \<le> bankroll ?s'"
    using resolveDealer_bankroll_cases [of now s deck1 "?dh @ extra" "handTotal (?dh @ extra)"]
      pl by auto
  have "wellFormed ?s'"
    unfolding wellFormed_cards using ck pl le bk by simp
  with run st pre le show ?thesis by blast
qed

lemma wellFormed_initialWith:
  assumes "mset dk = mset buildDeck"
  shows "wellFormed (initialWith sd dk)"
proof -
  have "mset (map cid dk) = mset (map cid buildDeck)" using assms by simp
  then have "distinct (map cid dk)"
    using buildDeck_distinct mset_eq_imp_distinct_iff by blast
  moreover have "set dk = set buildDeck" using assms by (rule mset_eq_setD)
  ultimately show ?thesis
    by (simp add: wellFormed_cards cardsOK_def initialWith_def)
qed

lemma initialWith_message: "(initialWith sd dk)\<lparr>message := lobbyMessage\<rparr> = initialWith sd dk"
  by (simp add: initialWith_def lobbyMessage_def)

lemma caseRESET_RUN_eq:
  "caseRESET_RUN now r =
     Inr (pushLog now (initialWith (fst (cryptoSeed32 r))
                         (fst (shuffle buildDeck (snd (cryptoSeed32 r)))))
            ''RESET_RUN'' ''Reset run.'')"
  by (simp add: caseRESET_RUN_def split_beta Let_def initialWith_message)

lemma caseRESET_RUN_wellFormed:
  "\<exists>s'. caseRESET_RUN now r = Inr s' \<and> wellFormed s'"
  by (simp add: caseRESET_RUN_eq wellFormed_initialWith shuffle_mset)

lemma initialState_wellFormed: "wellFormed (initialState r)"
  by (simp add: initialState_def split_beta Let_def wellFormed_initialWith shuffle_mset)

lemma caseSHUFFLE_wellFormed:
  assumes "wellFormed s"
  shows "\<exists>s'. caseSHUFFLE now s r = Inr s' \<and> wellFormed s'"
proof -
  let ?ip = "inPlayOf (playerHand s) (dealerHand s)"
  let ?dk = "fst (rebuildDeck ?ip (snd (cryptoSeed32 r)))"
  have ok: "cardsOK (deck s) (playerHand s) (dealerHand s)"
    using assms by (simp add: wellFormed_cards)
  have ck: "cardsOK ?dk (playerHand s) (dealerHand s)"
    using ok by (rule cardsOK_rebuilt)
  have "\<exists>s'. caseSHUFFLE now s r = Inr s' \<and> deck s' = ?dk
      \<and> playerHand s' = playerHand s \<and> dealerHand s' = dealerHand s
      \<and> bet s' = bet s \<and> bankroll s' = bankroll s \<and> phase s' = phase s"
    by (simp add: caseSHUFFLE_def addIds_inPlayOf Let_def split_beta rebuildDeck_def)
  then obtain s' where s': "caseSHUFFLE now s r = Inr s'" "deck s' = ?dk"
    "playerHand s' = playerHand s" "dealerHand s' = dealerHand s"
    "bet s' = bet s" "bankroll s' = bankroll s" "phase s' = phase s"
    by blast
  have "wellFormed s'"
    unfolding wellFormed_cards s' using ck assms by (simp add: wellFormed_cards)
  with s' show ?thesis by blast
qed

lemma clampBet_range: "0 \<le> clampBet n \<and> clampBet n \<le> 50"
  by (simp add: clampBet_def MAX_BET_def)

lemma caseBET_ADD_wellFormed:
  assumes "wellFormed s"
  shows "\<exists>s'. caseBET_ADD now s inc = Inr s' \<and> wellFormed s'"
  using assms clampBet_range [of "bet s + inc"]
  by (auto simp add: caseBET_ADD_def Let_def wellFormed_cards)

lemma caseRESET_BET_wellFormed:
  assumes "wellFormed s"
  shows "\<exists>s'. caseRESET_BET now s = Inr s' \<and> wellFormed s'"
  using assms by (auto simp add: caseRESET_BET_def wellFormed_cards)

lemma caseBET_PLACE_CTA_wellFormed:
  assumes "wellFormed s"
  shows "\<exists>s'. caseBET_PLACE_CTA now s = Inr s' \<and> wellFormed s'"
  using assms by (auto simp add: caseBET_PLACE_CTA_def Let_def wellFormed_cards)

lemma caseSTART_total:
  assumes "wellFormed s"
  shows "\<exists>s'. caseSTART now s r = Inr s' \<and> wellFormed s'"
proof (cases "phase s = LOBBY \<and> 0 < bet s \<and> bet s \<le> bankroll s")
  case True
  with caseSTART_wellFormed [OF assms, of now r] show ?thesis by blast
next
  case False
  then show ?thesis using assms by (auto simp add: caseSTART_def wellFormed_cards)
qed

lemma caseSTAND_wellFormed:
  assumes "wellFormed s"
  shows "\<exists>s'. caseSTAND now s = Inr s' \<and> wellFormed s'"
  using assms by (auto simp add: caseSTAND_def wellFormed_cards)

lemma caseNEXT_HAND_wellFormed:
  assumes "wellFormed s"
  shows "\<exists>s'. caseNEXT_HAND now s = Inr s' \<and> wellFormed s'"
  using assms by (auto simp add: caseNEXT_HAND_def wellFormed_cards cardsOK_def)

lemma caseDEALER_PLAY_total:
  assumes "wellFormed s"
  shows "\<exists>s'. caseDEALER_PLAY now s r = Inr s' \<and> wellFormed s'"
proof (cases "phase s = DEALER")
  case True
  with caseDEALER_PLAY_wellFormed [OF assms, of now r] show ?thesis by blast
next
  case False
  then show ?thesis using assms by (simp add: caseDEALER_PLAY_def)
qed

lemma reducer_wellFormed:
  assumes "wellFormed s"
  shows "\<exists>s'. reducer r now s a = Inr s' \<and> wellFormed s'"
proof (cases a)
  case RESET_RUN
  then show ?thesis
    using caseRESET_RUN_wellFormed by (simp add: reducer_def wellFormed_normalize [OF assms])
next
  case SHUFFLE
  then show ?thesis
    using caseSHUFFLE_wellFormed [OF assms]
    by (simp add: reducer_def wellFormed_normalize [OF assms])
next
  case TOGGLE_LOG
  then show ?thesis
    using assms by (simp add: reducer_def wellFormed_normalize [OF assms] wellFormed_cards)
next
  case RESET_BET
  then show ?thesis
    using caseRESET_BET_wellFormed [OF assms]
    by (simp add: reducer_def wellFormed_normalize [OF assms])
next
  case (BET_ADD inc)
  then show ?thesis
    using caseBET_ADD_wellFormed [OF assms]
    by (simp add: reducer_def wellFormed_normalize [OF assms])
next
  case BET_PLACE_CTA
  then show ?thesis
    using caseBET_PLACE_CTA_wellFormed [OF assms]
    by (simp add: reducer_def wellFormed_normalize [OF assms])
next
  case START
  then show ?thesis
    using caseSTART_total [OF assms]
    by (simp add: reducer_def wellFormed_normalize [OF assms])
next
  case (DRAW n)
  then show ?thesis
    using caseDRAW_wellFormed [OF assms]
    by (simp add: reducer_def wellFormed_normalize [OF assms])
next
  case STAND
  then show ?thesis
    using caseSTAND_wellFormed [OF assms]
    by (simp add: reducer_def wellFormed_normalize [OF assms])
next
  case DEALER_PLAY
  then show ?thesis
    using caseDEALER_PLAY_total [OF assms]
    by (simp add: reducer_def wellFormed_normalize [OF assms])
next
  case NEXT_HAND
  then show ?thesis
    using caseNEXT_HAND_wellFormed [OF assms]
    by (simp add: reducer_def wellFormed_normalize [OF assms])
qed

lemma reachable_wellFormed: "reachable s \<Longrightarrow> wellFormed s"
proof (induction rule: reachable.induct)
  case (init r)
  show ?case by (rule initialState_wellFormed)
next
  case (step s r now a s')
  from reducer_wellFormed [OF step.IH, of r now a] step.hyps(2) show ?case by auto
qed

lemma reachable_total: "reachable s \<Longrightarrow> \<exists>s'. reducer r now s a = Inr s'"
  using reducer_wellFormed [OF reachable_wellFormed] by blast

subsection \<open>What a transition changes\<close>

lemma normalize_keeps [simp]:
  "phase (fst (normalize s r)) = phase s"
  "bet (fst (normalize s r)) = bet s"
  "bankroll (fst (normalize s r)) = bankroll s"
  "playerInitialBust (fst (normalize s r)) = playerInitialBust s"
  "message (fst (normalize s r)) = message s"
  "logS (fst (normalize s r)) = logS s"
  "logOpen (fst (normalize s r)) = logOpen s"
  "seed (fst (normalize s r)) = seed s"
  by (simp_all add: normalize_fields)

lemma reducer_cases:
  "reducer r now s a =
     (case a of
        RESET_RUN \<Rightarrow> caseRESET_RUN now (snd (normalize s r))
      | TOGGLE_LOG \<Rightarrow> Inr ((fst (normalize s r))\<lparr>logOpen := \<not> logOpen s\<rparr>)
      | SHUFFLE \<Rightarrow> caseSHUFFLE now (fst (normalize s r)) (snd (normalize s r))
      | RESET_BET \<Rightarrow> caseRESET_BET now (fst (normalize s r))
      | BET_ADD inc \<Rightarrow> caseBET_ADD now (fst (normalize s r)) inc
      | BET_PLACE_CTA \<Rightarrow> caseBET_PLACE_CTA now (fst (normalize s r))
      | START \<Rightarrow> caseSTART now (fst (normalize s r)) (snd (normalize s r))
      | DRAW n \<Rightarrow> caseDRAW now (fst (normalize s r)) n (snd (normalize s r))
      | STAND \<Rightarrow> caseSTAND now (fst (normalize s r))
      | DEALER_PLAY \<Rightarrow> caseDEALER_PLAY now (fst (normalize s r)) (snd (normalize s r))
      | NEXT_HAND \<Rightarrow> caseNEXT_HAND now (fst (normalize s r)))"
  by (simp add: reducer_def split_beta split: Action.splits)

lemma dealerLoop_total_is_hand:
  assumes "51 - draws = k" "dealerLoop ph deck0 dh (handTotal dh) draws r = Inr (deck1, dh1, dt1)"
  shows "dt1 = handTotal dh1"
  using assms
proof (induction k arbitrary: deck0 dh draws r)
  case 0
  then show ?case
    by (subst (asm) dealerLoop.simps)
      (auto simp add: Let_def split: if_splits option.splits list.splits)
next
  case (Suc k)
  from Suc.prems(2) show ?case
  proof (subst (asm) dealerLoop.simps,
      auto simp add: Let_def split: if_splits option.splits list.splits, goal_cases)
    case (1 rest r' t0 ts)
    have "51 - (draws + 1) = k" using Suc.prems(1) by simp
    from Suc.IH [OF this] 1 show ?case by simp
  qed
qed

lemma caseDEALER_PLAY_result:
  assumes "phase st = DEALER" "caseDEALER_PLAY now st r = Inr s'"
  shows "\<exists>deck1 dh1. s' = resolveDealer now st deck1 dh1 (handTotal dh1)"
proof -
  from assms obtain deck0 dh0 r0 deck1 dh1 dt1 where
    "dealerLoop (playerHand st) deck0 dh0 (handTotal dh0) 0 r0 = Inr (deck1, dh1, dt1)"
    and s': "s' = resolveDealer now st deck1 dh1 dt1"
    by (auto simp add: caseDEALER_PLAY_def split: option.splits sum.splits)
  from dealerLoop_total_is_hand [OF refl this(1)] s' show ?thesis by blast
qed

lemma case_keeps_bet:
  "caseSHUFFLE now st r = Inr s' \<Longrightarrow> bet s' = bet st"
  "caseSTART now st r = Inr s' \<Longrightarrow> bet s' = bet st"
  "caseDRAW now st n r = Inr s' \<Longrightarrow> bet s' = bet st"
  "caseSTAND now st = Inr s' \<Longrightarrow> bet s' = bet st"
  "caseDEALER_PLAY now st r = Inr s' \<Longrightarrow> bet s' = bet st"
  "phase st \<noteq> LOBBY \<Longrightarrow> caseRESET_BET now st = Inr s' \<Longrightarrow> bet s' = bet st"
  "phase st \<noteq> LOBBY \<Longrightarrow> caseBET_ADD now st inc = Inr s' \<Longrightarrow> bet s' = bet st"
  "phase st \<noteq> LOBBY \<Longrightarrow> caseBET_PLACE_CTA now st = Inr s' \<Longrightarrow> bet s' = bet st"
proof -
  show "caseSHUFFLE now st r = Inr s' \<Longrightarrow> bet s' = bet st"
    by (auto simp add: caseSHUFFLE_def Let_def split_beta)
  show "caseSTART now st r = Inr s' \<Longrightarrow> bet s' = bet st"
    by (auto simp add: caseSTART_def Let_def split: if_splits option.splits list.splits)
  show "caseDRAW now st n r = Inr s' \<Longrightarrow> bet s' = bet st"
    by (auto simp add: caseDRAW_def Let_def split: if_splits option.splits)
  show "caseSTAND now st = Inr s' \<Longrightarrow> bet s' = bet st"
    by (auto simp add: caseSTAND_def split: if_splits)
  show "caseDEALER_PLAY now st r = Inr s' \<Longrightarrow> bet s' = bet st"
    by (auto simp add: caseDEALER_PLAY_def split: if_splits option.splits sum.splits)
  show "phase st \<noteq> LOBBY \<Longrightarrow> caseRESET_BET now st = Inr s' \<Longrightarrow> bet s' = bet st"
    by (simp add: caseRESET_BET_def)
  show "phase st \<noteq> LOBBY \<Longrightarrow> caseBET_ADD now st inc = Inr s' \<Longrightarrow> bet s' = bet st"
    by (simp add: caseBET_ADD_def)
  show "phase st \<noteq> LOBBY \<Longrightarrow> caseBET_PLACE_CTA now st = Inr s' \<Longrightarrow> bet s' = bet st"
    by (simp add: caseBET_PLACE_CTA_def)
qed

lemma reducer_keeps_bet:
  assumes "reducer r now s a = Inr s'" "phase s \<noteq> LOBBY" "a \<noteq> NEXT_HAND" "a \<noteq> RESET_RUN"
  shows "bet s' = bet s"
proof (cases a)
  case TOGGLE_LOG
  with assms(1) show ?thesis by (auto simp add: reducer_cases)
next
  case RESET_BET
  with assms(1,2) show ?thesis by (auto simp add: reducer_cases caseRESET_BET_def)
next
  case (BET_ADD inc)
  with assms(1,2) show ?thesis by (auto simp add: reducer_cases caseBET_ADD_def)
next
  case BET_PLACE_CTA
  with assms(1,2) show ?thesis by (auto simp add: reducer_cases caseBET_PLACE_CTA_def)
qed (use assms in \<open>auto simp add: reducer_cases dest: case_keeps_bet\<close>)

lemma case_bankroll:
  "caseSHUFFLE now st r = Inr s' \<Longrightarrow> bankroll s' = bankroll st"
  "caseSTART now st r = Inr s' \<Longrightarrow> bankroll s' = bankroll st"
  "caseSTAND now st = Inr s' \<Longrightarrow> bankroll s' = bankroll st"
  "caseRESET_BET now st = Inr s' \<Longrightarrow> bankroll s' = bankroll st"
  "caseBET_ADD now st inc = Inr s' \<Longrightarrow> bankroll s' = bankroll st"
  "caseBET_PLACE_CTA now st = Inr s' \<Longrightarrow> bankroll s' = bankroll st"
  "caseNEXT_HAND now st = Inr s' \<Longrightarrow> bankroll s' = bankroll st"
proof -
  show "caseSHUFFLE now st r = Inr s' \<Longrightarrow> bankroll s' = bankroll st"
    by (auto simp add: caseSHUFFLE_def Let_def split_beta)
  show "caseSTART now st r = Inr s' \<Longrightarrow> bankroll s' = bankroll st"
    by (auto simp add: caseSTART_def Let_def split: if_splits option.splits list.splits)
  show "caseSTAND now st = Inr s' \<Longrightarrow> bankroll s' = bankroll st"
    by (auto simp add: caseSTAND_def split: if_splits)
  show "caseRESET_BET now st = Inr s' \<Longrightarrow> bankroll s' = bankroll st"
    by (auto simp add: caseRESET_BET_def split: if_splits)
  show "caseBET_ADD now st inc = Inr s' \<Longrightarrow> bankroll s' = bankroll st"
    by (auto simp add: caseBET_ADD_def Let_def split: if_splits)
  show "caseBET_PLACE_CTA now st = Inr s' \<Longrightarrow> bankroll s' = bankroll st"
    by (auto simp add: caseBET_PLACE_CTA_def Let_def split: if_splits)
  show "caseNEXT_HAND now st = Inr s' \<Longrightarrow> bankroll s' = bankroll st"
    by (auto simp add: caseNEXT_HAND_def split: if_splits)
qed

lemma caseDRAW_bankroll:
  assumes "caseDRAW now st n r = Inr s'"
  shows "bankroll s' = bankroll st
     \<or> bankroll s' = bankroll st - bet st \<and> phase s' = DONE \<and> phase st = PLAYER"
  using assms by (auto simp add: caseDRAW_def Let_def split: if_splits option.splits)

lemma caseDEALER_PLAY_bankroll:
  assumes "caseDEALER_PLAY now st r = Inr s'"
  shows "bankroll s' = bankroll st \<or> bankroll s' = bankroll st + bet st
     \<or> bankroll s' = bankroll st - bet st \<and> phase s' = DONE \<and> phase st = DEALER"
proof (cases "phase st = DEALER")
  case True
  from caseDEALER_PLAY_result [OF True assms] obtain deck1 dh1 where
    "s' = resolveDealer now st deck1 dh1 (handTotal dh1)" by blast
  with True resolveDealer_bankroll_cases [of now st deck1 dh1 "handTotal dh1"]
  show ?thesis by auto
next
  case False
  with assms show ?thesis by (simp add: caseDEALER_PLAY_def)
qed

lemma reducer_bankroll:
  assumes "reducer r now s a = Inr s'" "a \<noteq> RESET_RUN"
  shows "bankroll s' = bankroll s \<or> bankroll s' = bankroll s + bet s
     \<or> bankroll s' = bankroll s - bet s \<and> phase s' = DONE
         \<and> (phase s = PLAYER \<or> phase s = DEALER)"
proof (cases a)
  case RESET_RUN
  with assms(2) show ?thesis by simp
next
  case TOGGLE_LOG
  with assms(1) show ?thesis by (auto simp add: reducer_cases)
next
  case (DRAW n)
  with assms(1) caseDRAW_bankroll [of now "fst (normalize s r)" n "snd (normalize s r)" s']
  show ?thesis by (auto simp add: reducer_cases)
next
  case DEALER_PLAY
  with assms(1) caseDEALER_PLAY_bankroll [of now "fst (normalize s r)" "snd (normalize s r)" s']
  show ?thesis by (auto simp add: reducer_cases)
qed (use assms(1) in \<open>auto simp add: reducer_cases dest: case_bankroll\<close>)

lemma reducer_keeps_bet_in_hand:
  assumes "reducer r now s a = Inr s'" "phase s = PLAYER \<or> phase s = DEALER" "a \<noteq> RESET_RUN"
  shows "bet s' = bet s"
proof (cases "a = NEXT_HAND")
  case True
  with assms(1,2) show ?thesis by (auto simp add: reducer_cases caseNEXT_HAND_def)
next
  case False
  with assms show ?thesis by (intro reducer_keeps_bet [of r now s a s']) auto
qed

subsection \<open>The example play\<close>

lemma after_reducer: "wellFormed s \<Longrightarrow> reducer rZero 0 s a = Inr (after s a)"
  using reducer_wellFormed [of s rZero 0 a] by (auto simp add: after_def)

lemma after_wellFormed: "wellFormed s \<Longrightarrow> wellFormed (after s a)"
  using reducer_wellFormed [of s rZero 0 a] by (auto simp add: after_def)

lemma after_reachable: "reachable s \<Longrightarrow> reachable (after s a)"
  using after_reducer [OF reachable_wellFormed, of s a] reachable.step by blast

lemma foldl_after_reachable: "reachable s \<Longrightarrow> reachable (foldl after s as)"
  by (induction as arbitrary: s) (simp_all add: after_reachable)

lemma play_reachable: "reachable (play as)"
  unfolding play_def by (rule foldl_after_reachable) (rule reachable.init)

lemma play_snoc: "play (as @ [a]) = after (play as) a"
  by (simp add: play_def)

lemma play_wellFormed: "wellFormed (play as)"
  by (rule reachable_wellFormed) (rule play_reachable)

lemma initialState_fields:
  "phase (initialState r) = LOBBY" "bet (initialState r) = 0"
  "bankroll (initialState r) = 10000" "playerHand (initialState r) = []"
  "dealerHand (initialState r) = []" "logS (initialState r) = []"
  by (simp_all add: initialState_def initialWith_def split_beta)

lemma after_BET_ADD:
  assumes "wellFormed s" "phase s = LOBBY"
  shows "phase (after s (BET_ADD inc)) = LOBBY"
    "bet (after s (BET_ADD inc)) = clampBet (bet s + inc)"
    "bankroll (after s (BET_ADD inc)) = bankroll s"
  using assms
  by (simp_all add: after_def reducer_def wellFormed_normalize caseBET_ADD_def Let_def)

lemma after_START:
  assumes "wellFormed s" "phase s = LOBBY" "0 < bet s" "bet s \<le> bankroll s"
  shows "phase (after s START) = PLAYER" "bet (after s START) = bet s"
    "bankroll (after s START) = bankroll s" "kind (last (logS (after s START))) = ''START''"
  using caseSTART_wellFormed [OF assms, of 0 rZero] assms(1)
  by (auto simp add: after_def reducer_def wellFormed_normalize)

lemma after_STAND:
  assumes "wellFormed s" "phase s = PLAYER"
  shows "phase (after s STAND) = DEALER" "bet (after s STAND) = bet s"
    "bankroll (after s STAND) = bankroll s"
  using assms
  by (simp_all add: after_def reducer_def wellFormed_normalize caseSTAND_def)

lemma after_DEALER_PLAY:
  assumes "wellFormed s" "phase s = DEALER"
  shows "phase (after s DEALER_PLAY) = DONE"
  using caseDEALER_PLAY_wellFormed [OF assms, of 0 rZero] assms(1)
  by (auto simp add: after_def reducer_def wellFormed_normalize)

lemma after_NEXT_HAND:
  assumes "wellFormed s" "phase s = DONE"
  shows "phase (after s NEXT_HAND) = LOBBY" "deck (after s NEXT_HAND) = deck s"
    "playerHand (after s NEXT_HAND) = []" "dealerHand (after s NEXT_HAND) = []"
  using assms
  by (simp_all add: after_def reducer_def wellFormed_normalize caseNEXT_HAND_def)

lemma play_bet10:
  "phase (play [BET_ADD 10]) = LOBBY" "bet (play [BET_ADD 10]) = 10"
  "bankroll (play [BET_ADD 10]) = 10000"
  using after_BET_ADD [OF play_wellFormed [of "[]"], of 10]
  by (simp_all add: play_snoc [of "[]", simplified] clampBet_def MAX_BET_def
      play_def initialState_fields)

lemma play_start:
  "phase (play [BET_ADD 10, START]) = PLAYER" "bet (play [BET_ADD 10, START]) = 10"
  "bankroll (play [BET_ADD 10, START]) = 10000"
  "kind (last (logS (play [BET_ADD 10, START]))) = ''START''"
  using after_START [OF play_wellFormed [of "[BET_ADD 10]"]] play_bet10
  by (simp_all add: play_snoc [of "[BET_ADD 10]", simplified])

lemma play_stand:
  "phase (play [BET_ADD 10, START, STAND]) = DEALER"
  using after_STAND [OF play_wellFormed [of "[BET_ADD 10, START]"]] play_start
  by (simp_all add: play_snoc [of "[BET_ADD 10, START]", simplified])

lemma play_dealer:
  "phase (play [BET_ADD 10, START, STAND, DEALER_PLAY]) = DONE"
  using after_DEALER_PLAY [OF play_wellFormed [of "[BET_ADD 10, START, STAND]"]] play_stand
  by (simp_all add: play_snoc [of "[BET_ADD 10, START, STAND]", simplified])

lemma play_next:
  "deck (play [BET_ADD 10, START, STAND, DEALER_PLAY, NEXT_HAND])
     = deck (play [BET_ADD 10, START, STAND, DEALER_PLAY])"
  "playerHand (play [BET_ADD 10, START, STAND, DEALER_PLAY, NEXT_HAND]) = []"
  "dealerHand (play [BET_ADD 10, START, STAND, DEALER_PLAY, NEXT_HAND]) = []"
  using after_NEXT_HAND [OF play_wellFormed [of "[BET_ADD 10, START, STAND, DEALER_PLAY]"]]
    play_dealer
  by (simp_all add: play_snoc [of "[BET_ADD 10, START, STAND, DEALER_PLAY]", simplified])

subsection \<open>Cards of a state\<close>

lemma cardsOK_length:
  assumes "cardsOK dk p d"
  shows "length dk + length p + length d \<le> 77"
proof -
  let ?ids = "map cid (dk @ p @ d)"
  have "card (set ?ids) = length ?ids"
    using assms by (intro distinct_card) (simp add: cardsOK_def)
  moreover have "set ?ids \<subseteq> canonicalIds"
    using assms by (auto simp add: cardsOK_def canonicalIds_def)
  then have "card (set ?ids) \<le> 77"
    using card_mono [OF canonicalIds_finite] by (simp add: canonicalIds_card)
  ultimately show ?thesis by simp
qed

lemma full_ids:
  assumes "set dk = {c \<in> set buildDeck. cid c \<notin> inPlayOf p d}"
    "set p \<union> set d \<subseteq> set buildDeck"
  shows "set (map cid (dk @ p @ d)) = set (map cid buildDeck)"
  using assms by (auto simp add: inPlayOf_def)

lemma caseSHUFFLE_cards:
  assumes "caseSHUFFLE now s r = Inr s'"
  shows "deck s' = fst (rebuildDeck (inPlayOf (playerHand s) (dealerHand s))
                          (snd (cryptoSeed32 r)))"
    "playerHand s' = playerHand s" "dealerHand s' = dealerHand s"
  using assms
  by (auto simp add: caseSHUFFLE_def addIds_inPlayOf Let_def split_beta rebuildDeck_def)

lemma shuffled_deck_ids:
  "set (map cid (fst (shuffle buildDeck r))) = set (map cid buildDeck)"
  by (simp add: shuffle_set)

subsection \<open>Draws come from the front of a clean deck\<close>

lemma takeLoop_front:
  assumes "cleanDeck d inPlay" "takenIds \<subseteq> inPlay" "n - length taken \<le> length d"
    "safety + (n - length taken) \<le> 500"
  shows "takeLoop n d taken takenIds inPlay safety r =
     Some (taken @ take (n - length taken) d, drop (n - length taken) d,
           inPlay \<union> cid ` set (take (n - length taken) d), r)"
  using assms
proof (induction d arbitrary: taken takenIds inPlay safety)
  case Nil
  then have "\<not> length taken < n" by simp
  then show ?case by (simp add: takeLoop_done)
next
  case (Cons c d2)
  show ?case
  proof (cases "length taken < n")
    case False
    then show ?thesis by (simp add: takeLoop_done)
  next
    case lt: True
    have small: "\<not> safety + 1 > 500" using Cons.prems(4) lt by simp
    have hd: "cid c \<notin> inPlay" using cleanDeck_head [OF Cons.prems(1)] by simp
    have k: "n - length taken = Suc (n - length (taken @ [c]))" using lt by simp
    have "takeLoop n d2 (taken @ [c]) (insert (cid c) takenIds) (insert (cid c) inPlay)
            (safety + 1) r =
          Some ((taken @ [c]) @ take (n - length (taken @ [c])) d2,
                drop (n - length (taken @ [c])) d2,
                insert (cid c) inPlay \<union> cid ` set (take (n - length (taken @ [c])) d2), r)"
      using Cons.prems lt cleanDeck_tail [OF Cons.prems(1)]
      by (intro Cons.IH) auto
    then show ?thesis
      unfolding takeLoop_step_take [OF lt Cons.prems(2) small hd] k by simp
  qed
qed

lemma takeUnique_front:
  assumes "cleanDeck d inPlay" "n \<le> length d" "n \<le> 500"
  shows "takeUnique d n inPlay r =
     Some (take n d, drop n d, inPlay \<union> cid ` set (take n d), r)"
proof -
  have "\<not> hasDuplicatesById d"
    using assms(1) by (simp add: hasDuplicatesById_iff cleanDeck_def)
  moreover have "takeLoop n d [] {} inPlay 0 r =
      Some ([] @ take (n - length ([]::Card list)) d, drop (n - length ([]::Card list)) d,
            inPlay \<union> cid ` set (take (n - length ([]::Card list)) d), r)"
    using assms by (intro takeLoop_front) simp_all
  ultimately show ?thesis by (simp add: takeUnique_def)
qed

subsection \<open>The example states\<close>

lemma examples_wellFormed:
  "wellFormed dealtBustDraws" "wellFormed dealtBustStands" "wellFormed dealtBustTurn"
  by code_simp+

lemma example_totals:
  "handTotal (playerHand dealtBustDraws) = 2203 / 100"
  "handTotal (dealerHand dealtBustDraws) = 1603 / 100"
  "handTotal (dealerHand dealtBustDraws @ [mkCard Heart 7]) = 2305 / 100"
  "handTotal (dealerHand dealtBustStands) = 1903 / 100"
  by code_simp+

lemma dealtBustStands_play:
  "caseDEALER_PLAY 0 dealtBustStands rZero =
     Inr (resolveDealer 0 dealtBustStands (deck dealtBustStands) (dealerHand dealtBustStands)
            (1903 / 100))"
proof -
  have top: "dealerTopUp dealtBustStands rZero
      = Some (deck dealtBustStands, dealerHand dealtBustStands, rZero)"
    by (simp add: dealerTopUp_def dealtBustStands_def dealtBustDraws_def)
  have "\<not> handTotal (dealerHand dealtBustStands) < DEALER_STAND"
    by (simp add: example_totals DEALER_STAND_def)
  then have "dealerLoop (playerHand dealtBustStands) (deck dealtBustStands)
      (dealerHand dealtBustStands) (handTotal (dealerHand dealtBustStands)) 0 rZero
      = Inr (deck dealtBustStands, dealerHand dealtBustStands,
             handTotal (dealerHand dealtBustStands))"
    by (rule dealerLoop_stop)
  moreover have "phase dealtBustStands = DEALER"
    by (simp add: dealtBustStands_def dealtBustDraws_def)
  ultimately show ?thesis
    by (simp add: caseDEALER_PLAY_def top example_totals)
qed

lemma dealtBustDraws_play:
  "caseDEALER_PLAY 0 dealtBustDraws rZero =
     Inr (resolveDealer 0 dealtBustDraws [mkCard Heart 5]
            (dealerHand dealtBustDraws @ [mkCard Heart 7]) (2305 / 100))"
proof -
  let ?ph = "playerHand dealtBustDraws" and ?dh = "dealerHand dealtBustDraws"
  have top: "dealerTopUp dealtBustDraws rZero = Some (deck dealtBustDraws, ?dh, rZero)"
    by (simp add: dealerTopUp_def dealtBustDraws_def)
  have dk: "deck dealtBustDraws = [mkCard Heart 7, mkCard Heart 5]"
    by (simp add: dealtBustDraws_def)
  have "cleanDeck (deck dealtBustDraws) (inPlayOf ?ph ?dh)"
    by (rule wellFormed_cleanDeck) (rule examples_wellFormed)
  then have tk: "takeUnique (deck dealtBustDraws) 1 (inPlayOf ?ph ?dh) rZero =
      Some ([mkCard Heart 7], [mkCard Heart 5],
            inPlayOf ?ph ?dh \<union> cid ` set (take 1 (deck dealtBustDraws)), rZero)"
    using takeUnique_front [of "deck dealtBustDraws" "inPlayOf ?ph ?dh" 1 rZero]
    by (simp add: dk)
  have lo: "handTotal ?dh < DEALER_STAND" by (simp add: example_totals DEALER_STAND_def)
  have hi: "\<not> handTotal (?dh @ [mkCard Heart 7]) < DEALER_STAND"
    by (simp add: example_totals DEALER_STAND_def)
  have "dealerLoop ?ph (deck dealtBustDraws) ?dh (handTotal ?dh) 0 rZero =
      dealerLoop ?ph [mkCard Heart 5] (?dh @ [mkCard Heart 7])
        (handTotal (?dh @ [mkCard Heart 7])) (0 + 1) rZero"
    using lo tk by (rule dealerLoop_draw) simp
  also have "\<dots> = Inr ([mkCard Heart 5], ?dh @ [mkCard Heart 7],
      handTotal (?dh @ [mkCard Heart 7]))"
    using hi by (rule dealerLoop_stop)
  finally have loop: "dealerLoop ?ph (deck dealtBustDraws) ?dh (handTotal ?dh) 0 rZero =
      Inr ([mkCard Heart 5], ?dh @ [mkCard Heart 7], 2305 / 100)"
    by (simp add: example_totals)
  have "phase dealtBustDraws = DEALER" by (simp add: dealtBustDraws_def)
  then show ?thesis
    by (simp add: caseDEALER_PLAY_def top loop)
qed

subsection \<open>Rounding to a double\<close>

lemma pow2_succ: "(2::rat) powi (k + 1) = 2 * 2 powi k"
  by (simp add: power_int_add)

lemma pow2_pred: "(2::rat) powi (k - 1) = 2 powi k / 2"
  by (simp add: power_int_diff)

lemma expoUp_bracket: "1 \<le> x \<Longrightarrow> 2 powi expoUp x \<le> x \<and> x < 2 powi (expoUp x + 1)"
proof (induction x rule: expoUp.induct)
  case (1 x)
  show ?case
  proof (cases "x < 2")
    case True
    then have "expoUp x = 0" by (subst expoUp.simps) simp
    with True "1.prems" show ?thesis by simp
  next
    case False
    then have e: "expoUp x = expoUp (x / 2) + 1" by (subst expoUp.simps) simp
    have "1 \<le> x / 2" using False by simp
    with "1.IH" [OF False] have
      "2 powi expoUp (x / 2) \<le> x / 2" "x / 2 < 2 powi (expoUp (x / 2) + 1)"
      by simp_all
    then show ?thesis
      unfolding e pow2_succ [of "expoUp (x / 2) + 1"] pow2_succ [of "expoUp (x / 2)"]
      by simp
  qed
qed

lemma expoDown_bracket:
  "0 < x \<Longrightarrow> x < 1 \<Longrightarrow> 2 powi expoDown x \<le> x \<and> x < 2 powi (expoDown x + 1)"
proof (induction x rule: expoDown.induct)
  case (1 x)
  have g: "\<not> (x \<le> 0 \<or> 1 \<le> x)" using "1.prems" by simp
  then have e: "expoDown x = expoDown (2 * x) - 1" by (subst expoDown.simps) simp
  show ?case
  proof (cases "1 \<le> 2 * x")
    case True
    then have "expoDown (2 * x) = 0" by (subst expoDown.simps) simp
    with True "1.prems" show ?thesis unfolding e by (simp add: power_int_minus)
  next
    case False
    with "1.IH" [OF g] "1.prems" have
      "2 powi expoDown (2 * x) \<le> 2 * x" "2 * x < 2 powi (expoDown (2 * x) + 1)"
      by simp_all
    then show ?thesis
      unfolding e pow2_pred [of "expoDown (2 * x)"] by (simp add: pow2_succ)
  qed
qed

lemma expo_bracket: "0 < x \<Longrightarrow> 2 powi expo x \<le> x \<and> x < 2 powi (expo x + 1)"
  using expoUp_bracket [of x] expoDown_bracket [of x] by (cases "1 \<le> x") (simp_all add: expo_def)

lemma roundEven_error: "\<bar>of_int (roundEven y) - y\<bar> \<le> 1 / 2"
proof -
  have "of_int \<lfloor>y\<rfloor> \<le> y" "y < of_int \<lfloor>y\<rfloor> + 1" by linarith+
  then show ?thesis by (auto simp add: roundEven_def Let_def)
qed

lemma toDoublePos_error:
  assumes "0 < x"
  shows "\<bar>toDoublePos x - x\<bar> \<le> x / 2 ^ 53"
proof -
  define ulp :: rat where "ulp = 2 powi (expo x - 52)"
  have pos: "0 < ulp" by (simp add: ulp_def)
  have u: "ulp = 2 powi expo x / 2 ^ 52" by (simp add: ulp_def power_int_diff)
  have "toDoublePos x - x = (of_int (roundEven (x / ulp)) - x / ulp) * ulp"
    using pos by (simp add: toDoublePos_def ulp_def [symmetric] field_simps)
  then have "\<bar>toDoublePos x - x\<bar> = \<bar>of_int (roundEven (x / ulp)) - x / ulp\<bar> * ulp"
    using pos by (simp add: abs_mult)
  also have "\<dots> \<le> (1 / 2) * ulp"
    using roundEven_error [of "x / ulp"] pos by (intro mult_right_mono) simp_all
  also have "\<dots> = 2 powi expo x / 2 ^ 53" by (simp add: u)
  also have "\<dots> \<le> x / 2 ^ 53"
    using expo_bracket [OF assms] by (simp add: divide_right_mono)
  finally show ?thesis .
qed

lemma toDouble_error:
  assumes "0 < x" "x \<le> 131072"
  shows "\<bar>toDouble x - x\<bar> \<le> 1 / 2 ^ 36"
proof -
  have "\<bar>toDouble x - x\<bar> \<le> x / 2 ^ 53"
    using toDoublePos_error [OF assms(1)] assms(1) by (simp add: toDouble_def)
  also have "\<dots> \<le> 131072 / 2 ^ 53" using assms(2) by (simp add: divide_right_mono)
  also have "\<dots> = 1 / 2 ^ 36" by simp
  finally show ?thesis .
qed

lemma toDouble_examples:
  "toDouble 17 = 17" "toDouble 21 = 21" "toDouble (1 / 2) = 1 / 2"
  "toDouble (1 / 100) = 5764607523034235 / 576460752303423488"
  "toDouble (1 + 1 / 2 ^ 53) = 1" "toDouble (1 + 3 / 2 ^ 53) = 1 + 1 / 2 ^ 51"
  "toDouble (- (1101 / 100)) = - (6198078987168645 / 562949953421312)"
  by code_simp+

subsection \<open>The double computation returns the exact total, rounded once\<close>

lemma abs_diff_bounds:
  assumes "\<bar>a - b\<bar> \<le> (e::rat)"
  shows "a \<le> b + e" "b - e \<le> a"
  using assms by linarith+

lemma abs_diff_le: "a \<le> b + e \<Longrightarrow> b - e \<le> a \<Longrightarrow> \<bar>a - b\<bar> \<le> (e::rat)"
  by linarith

lemma toDouble_bounds:
  assumes "0 < x" "x \<le> 131072"
  shows "toDouble x \<le> x + 1 / 68719476736" "x - 1 / 68719476736 \<le> toDouble x"
  using abs_diff_bounds [OF toDouble_error [OF assms]] by simp_all

lemma MathRound_half_up:
  "x - 1 / 2 < of_int (MathRound x) \<and> of_int (MathRound x) \<le> x + 1 / 2"
  unfolding MathRound_def by linarith

text \<open>A double close to a hundredth is rounded to the double of that hundredth.\<close>

lemma round2D_near:
  assumes "0 < a" "a \<le> 1310" "a \<le> of_int K / 100 + 1 / 1000000"
    "of_int K / 100 - 1 / 1000000 \<le> a"
  shows "round2D a = toDouble (of_int K / 100)"
proof -
  have x: "0 < a * 100" "a * 100 \<le> 131072" using assms(1,2) by linarith+
  note p = toDouble_bounds [OF x]
  have "of_int K \<le> toDouble (a * 100) + 1 / 2" using p(2) assms(4) by linarith
  moreover have "toDouble (a * 100) + 1 / 2 < of_int K + 1" using p(1) assms(3) by linarith
  ultimately have "MathRound (toDouble (a * 100)) = K"
    unfolding MathRound_def by (intro floor_unique)
  then show ?thesis by (simp add: round2D_def)
qed

lemma buildDeck_ranges:
  "list_all (\<lambda>c. 1 \<le> val c \<and> val c \<le> 11 \<and> 1 \<le> rank c \<and> rank c \<le> 7) buildDeck"
  by code_simp

lemma canonical_ranges:
  assumes "c \<in> set buildDeck"
  shows "(1::rat) \<le> of_int (val c)" "of_int (val c) \<le> (11::rat)"
    "(1::rat) \<le> of_int (rank c)" "of_int (rank c) \<le> (7::rat)"
proof -
  have "1 \<le> val c \<and> val c \<le> 11 \<and> 1 \<le> rank c \<and> rank c \<le> 7"
    using assms buildDeck_ranges by (simp add: list_all_iff)
  then show "(1::rat) \<le> of_int (val c)" "of_int (val c) \<le> (11::rat)"
    "(1::rat) \<le> of_int (rank c)" "of_int (rank c) \<le> (7::rat)"
    by simp_all
qed

lemma hundredths: "(of_int (100 * v + r) :: rat) / 100 = of_int v + of_int r / 100"
  by simp

lemma canonical_scoreD:
  assumes "c \<in> set buildDeck"
  shows "cardScoreD c = toDouble (of_int (val c) + of_int (rank c) / 100)"
proof -
  note b = canonical_ranges [OF assms]
  let ?v = "(of_int (val c) :: rat)" and ?r = "(of_int (rank c) :: rat)"
  have r: "0 < ?r / 100" "?r / 100 \<le> 131072" using b by linarith+
  note d = toDouble_bounds [OF r]
  let ?z = "?v + toDouble (?r / 100)"
  have z: "0 < ?z" "?z \<le> 131072" using b d by linarith+
  note a = toDouble_bounds [OF z]
  have "round2D (toDouble ?z) = toDouble (of_int (100 * val c + rank c) / 100)"
  proof (rule round2D_near)
    show "0 < toDouble ?z" using a(2) b d by linarith
    show "toDouble ?z \<le> 1310" using a(1) b d by linarith
    show "toDouble ?z \<le> of_int (100 * val c + rank c) / 100 + 1 / 1000000"
      unfolding hundredths using a(1) d(1) by linarith
    show "of_int (100 * val c + rank c) / 100 - 1 / 1000000 \<le> toDouble ?z"
      unfolding hundredths using a(2) d(2) by linarith
  qed
  then show ?thesis unfolding hundredths by (simp add: cardScoreD_def)
qed

lemma decimal_sum_centis:
  "sum_list (map (\<lambda>c. of_int (val c) + of_int (rank c) / 100) hand)
     = (of_int (centis hand) :: rat) / 100"
  by (induction hand) (simp_all add: centis_def add_divide_distrib)

lemma decimal_sum_snoc:
  "sum_list (map (\<lambda>c. of_int (val c) + of_int (rank c) / 100) (hand @ [c]))
     = sum_list (map (\<lambda>c. of_int (val c) + of_int (rank c) / 100) hand)
       + ((of_int (val c) :: rat) + of_int (rank c) / 100)"
  by simp

lemma decimal_sum_range:
  assumes "set hand \<subseteq> set buildDeck"
  shows "(of_nat (length hand) :: rat)
           \<le> sum_list (map (\<lambda>c. of_int (val c) + of_int (rank c) / 100) hand)
     \<and> sum_list (map (\<lambda>c. of_int (val c) + of_int (rank c) / 100) hand)
           \<le> 12 * (of_nat (length hand) :: rat)"
  using assms
proof (induction hand)
  case Nil
  show ?case by simp
next
  case (Cons c hand)
  have c: "c \<in> set buildDeck" and sub: "set hand \<subseteq> set buildDeck"
    using Cons.prems by simp_all
  note b = canonical_ranges [OF c]
  from Cons.IH [OF sub] have
    lo: "(of_nat (length hand) :: rat)
           \<le> sum_list (map (\<lambda>c. of_int (val c) + of_int (rank c) / 100) hand)"
    and hi: "sum_list (map (\<lambda>c. of_int (val c) + of_int (rank c) / 100) hand)
           \<le> 12 * (of_nat (length hand) :: rat)"
    by simp_all
  have e: "sum_list (map (\<lambda>c. of_int (val c) + of_int (rank c) / 100) (c # hand))
      = ((of_int (val c) :: rat) + of_int (rank c) / 100)
        + sum_list (map (\<lambda>c. of_int (val c) + of_int (rank c) / 100) hand)"
    by simp
  have l: "(of_nat (length (c # hand)) :: rat) = of_nat (length hand) + 1" by simp
  have "(of_nat (length hand) :: rat) + 1
      \<le> ((of_int (val c) :: rat) + of_int (rank c) / 100)
        + sum_list (map (\<lambda>c. of_int (val c) + of_int (rank c) / 100) hand)"
    using lo b by linarith
  moreover have "((of_int (val c) :: rat) + of_int (rank c) / 100)
        + sum_list (map (\<lambda>c. of_int (val c) + of_int (rank c) / 100) hand)
      \<le> 12 * (of_nat (length hand) :: rat) + 12"
    using hi b by linarith
  ultimately show ?case unfolding e l by simp
qed

lemma doubleSum_error:
  assumes "set hand \<subseteq> set buildDeck" "length hand \<le> 77"
  shows "\<bar>foldl (\<lambda>sum c. toDouble (sum + cardScoreD c)) 0 hand
           - sum_list (map (\<lambda>c. of_int (val c) + of_int (rank c) / 100) hand)\<bar>
           \<le> of_nat (length hand) / 34359738368"
  using assms
proof (induction hand rule: rev_induct)
  case Nil
  show ?case by simp
next
  case (snoc c hand)
  let ?s = "foldl (\<lambda>sum c. toDouble (sum + cardScoreD c)) 0 hand"
  let ?S = "sum_list (map (\<lambda>c. (of_int (val c) :: rat) + of_int (rank c) / 100) hand)"
  let ?C = "(of_int (val c) :: rat) + of_int (rank c) / 100"
  let ?n = "(of_nat (length hand) :: rat)"
  have sub: "set hand \<subseteq> set buildDeck" and c: "c \<in> set buildDeck"
    and len: "length hand \<le> 76"
    using snoc.prems by simp_all
  have "\<bar>?s - ?S\<bar> \<le> ?n / 34359738368" using sub len by (intro snoc.IH) simp_all
  note ih = abs_diff_bounds [OF this]
  have n: "0 \<le> ?n" "?n \<le> 76" using len by simp_all
  note b = canonical_ranges [OF c]
  note S = decimal_sum_range [OF sub, THEN conjunct1] decimal_sum_range [OF sub, THEN conjunct2]
  have C: "0 < ?C" "?C \<le> 131072" using b by linarith+
  note ce = toDouble_bounds [OF C]
  let ?z = "?s + toDouble ?C"
  have z: "0 < ?z" "?z \<le> 131072" using ih ce b S n by linarith+
  note ze = toDouble_bounds [OF z]
  have d: "(?n + 1) / 34359738368 = ?n / 34359738368 + 2 / 68719476736"
    by (simp add: add_divide_distrib)
  have "\<bar>toDouble ?z - (?S + ?C)\<bar> \<le> (?n + 1) / 34359738368"
    unfolding d using ze ih ce by (intro abs_diff_le) linarith+
  then show ?case
    unfolding decimal_sum_snoc by (simp add: canonical_scoreD [OF c])
qed

lemma handTotalD_exact:
  assumes "set hand \<subseteq> set buildDeck" "length hand \<le> 77"
  shows "handTotalD hand
     = toDouble (sum_list (map (\<lambda>c. of_int (val c) + of_int (rank c) / 100) hand))"
proof (cases "hand = []")
  case True
  have "\<lfloor>(1::rat) / 2\<rfloor> = 0" by (rule floor_unique) simp_all
  then have "round2D 0 = toDouble 0"
    by (simp add: round2D_def toDouble_def MathRound_def)
  then show ?thesis by (simp add: True handTotalD_def)
next
  case False
  let ?s = "foldl (\<lambda>sum c. toDouble (sum + cardScoreD c)) 0 hand"
  let ?S = "sum_list (map (\<lambda>c. (of_int (val c) :: rat) + of_int (rank c) / 100) hand)"
  let ?n = "(of_nat (length hand) :: rat)"
  have n: "1 \<le> ?n" "?n \<le> 77"
    using False assms(2) by (simp_all add: Suc_le_eq)
  note se = abs_diff_bounds [OF doubleSum_error [OF assms]]
  note S = decimal_sum_range [OF assms(1), THEN conjunct1]
    decimal_sum_range [OF assms(1), THEN conjunct2]
  have "round2D ?s = toDouble (of_int (centis hand) / 100)"
  proof (rule round2D_near)
    show "0 < ?s" using se S n by linarith
    show "?s \<le> 1310" using se S n by linarith
    show "?s \<le> of_int (centis hand) / 100 + 1 / 1000000"
      unfolding decimal_sum_centis [symmetric] using se n by linarith
    show "of_int (centis hand) / 100 - 1 / 1000000 \<le> ?s"
      unfolding decimal_sum_centis [symmetric] using se n by linarith
  qed
  then show ?thesis by (simp add: handTotalD_def decimal_sum_centis)
qed


subsection \<open>The exact totals decide the comparisons as the doubles do\<close>

lemma toDouble_bounds0:
  assumes "0 \<le> x" "x \<le> 131072"
  shows "toDouble x \<le> x + 1 / 68719476736" "x - 1 / 68719476736 \<le> toDouble x"
proof -
  have "toDouble x \<le> x + 1 / 68719476736 \<and> x - 1 / 68719476736 \<le> toDouble x"
  proof (cases "x = 0")
    case True
    then show ?thesis by (simp add: toDouble_def)
  next
    case False
    then have "0 < x" using assms(1) by simp
    from toDouble_bounds [OF this assms(2)] show ?thesis by simp
  qed
  then show "toDouble x \<le> x + 1 / 68719476736" "x - 1 / 68719476736 \<le> toDouble x"
    by simp_all
qed

lemma toDouble_hundredths_less:
  assumes "0 \<le> K" "K \<le> 13107200" "0 \<le> L" "L \<le> 13107200"
  shows "toDouble (of_int K / 100) < toDouble (of_int L / 100) \<longleftrightarrow> K < L"
proof -
  have less: "toDouble (of_int A / 100) < toDouble (of_int B / 100)"
    if "0 \<le> A" "B \<le> 13107200" "A < B" for A B :: int
  proof -
    have "A + 1 \<le> B" using that(3) by simp
    then have "(of_int (A + 1) :: rat) \<le> of_int B" by (simp only: of_int_le_iff)
    then have ab: "(of_int A :: rat) + 1 \<le> of_int B" by simp
    have "(of_int (0::int) :: rat) \<le> of_int A" using that(1) by (simp only: of_int_le_iff)
    then have a0: "(0::rat) \<le> of_int A" by simp
    have "(of_int B :: rat) \<le> of_int (13107200::int)" using that(2) by (simp only: of_int_le_iff)
    then have b1: "(of_int B :: rat) \<le> 13107200" by simp
    have a: "(0::rat) \<le> of_int A / 100" "(of_int A :: rat) / 100 \<le> 131072"
      using a0 ab b1 by linarith+
    have b: "(0::rat) \<le> of_int B / 100" "(of_int B :: rat) / 100 \<le> 131072"
      using a0 ab b1 by linarith+
    from toDouble_bounds0(1) [OF a] toDouble_bounds0(2) [OF b] ab
    show ?thesis by linarith
  qed
  show ?thesis
  proof
    assume d: "toDouble (of_int K / 100) < toDouble (of_int L / 100)"
    show "K < L"
    proof (rule ccontr)
      assume "\<not> K < L"
      then consider "L = K" | "L < K" by linarith
      then show False
      proof cases
        case 1
        with d show False by simp
      next
        case 2
        from less [OF assms(3) assms(2) 2] d show False by simp
      qed
    qed
  next
    assume "K < L"
    from less [OF assms(1) assms(4) this]
    show "toDouble (of_int K / 100) < toDouble (of_int L / 100)" .
  qed
qed

lemma canonical_centis_range:
  assumes "set hand \<subseteq> set buildDeck" "length hand \<le> 77"
  shows "0 \<le> centis hand" "centis hand \<le> 13107200"
proof -
  note S = decimal_sum_range [OF assms(1), unfolded decimal_sum_centis]
  have n: "(of_nat (length hand) :: rat) \<le> 77" "(0::rat) \<le> of_nat (length hand)"
    using assms(2) by simp_all
  have "(0::rat) \<le> of_int (centis hand) / 100" using S n by linarith
  then show "0 \<le> centis hand" by simp
  have "(of_int (centis hand) :: rat) / 100 \<le> 131072" using S n by linarith
  then have "(of_int (centis hand) :: rat) \<le> of_int 13107200" by simp
  then show "centis hand \<le> 13107200" by (simp only: of_int_le_iff)
qed

lemma handTotalD_handTotal:
  assumes "set hand \<subseteq> set buildDeck" "length hand \<le> 77"
  shows "handTotalD hand = toDouble (handTotal hand)"
  by (simp add: handTotalD_exact [OF assms] decimal_sum_centis handTotal_centis)

text \<open>
  The comparisons of the reducer (\<open>total > 21\<close>, \<open>total < 17\<close>, one total against the
  other) give the same answer on the doubles of the code and on the exact totals of
  \<open>handTotal\<close>, for hands of canonical cards.
\<close>

lemma handTotalD_compare:
  assumes "set a \<subseteq> set buildDeck" "length a \<le> 77"
    and "set b \<subseteq> set buildDeck" "length b \<le> 77"
  shows "handTotalD a < handTotalD b \<longleftrightarrow> handTotal a < handTotal b"
    and "21 < handTotalD a \<longleftrightarrow> 21 < handTotal a"
    and "handTotalD a < 17 \<longleftrightarrow> handTotal a < 17"
proof -
  note ra = canonical_centis_range [OF assms(1,2)]
  note rb = canonical_centis_range [OF assms(3,4)]
  have da: "handTotalD a = toDouble (of_int (centis a) / 100)"
    by (simp add: handTotalD_exact [OF assms(1,2)] decimal_sum_centis)
  have db: "handTotalD b = toDouble (of_int (centis b) / 100)"
    by (simp add: handTotalD_exact [OF assms(3,4)] decimal_sum_centis)
  have lt: "(of_int K :: rat) / 100 < of_int L / 100 \<longleftrightarrow> K < L" for K L :: int
    by simp
  show "handTotalD a < handTotalD b \<longleftrightarrow> handTotal a < handTotal b"
    unfolding da db handTotal_centis lt
    by (rule toDouble_hundredths_less [OF ra rb])
  have "toDouble (of_int 2100 / 100) < toDouble (of_int (centis a) / 100) \<longleftrightarrow> 2100 < centis a"
    by (rule toDouble_hundredths_less [OF _ _ ra]) simp_all
  then show "21 < handTotalD a \<longleftrightarrow> 21 < handTotal a"
    unfolding da handTotal_centis by (simp add: toDouble_examples)
  have "toDouble (of_int (centis a) / 100) < toDouble (of_int 1700 / 100) \<longleftrightarrow> centis a < 1700"
    by (rule toDouble_hundredths_less [OF ra]) simp_all
  then show "handTotalD a < 17 \<longleftrightarrow> handTotal a < 17"
    unfolding da handTotal_centis by (simp add: toDouble_examples)
qed


section \<open>The claims\<close>

text \<open>
  Claim C1, as amended. In every reachable state the ids of the deck and of the two
  hands are pairwise distinct and all canonical, so no card is ever duplicated; the
  initial state, and the state after RESET_RUN or SHUFFLE, hold all 77 ids. The claim
  as stated also asks that no card is ever missing, and that fails: NEXT_HAND empties
  the hands and leaves the deck as it is, so the cards of a finished hand are gone
  until the deck is rebuilt.
\<close>

theorem C1_ids_distinct_and_canonical:
  assumes "reachable s"
  shows "distinct (map cid (deck s @ playerHand s @ dealerHand s))
     \<and> set (map cid (deck s @ playerHand s @ dealerHand s)) \<subseteq> set (map cid buildDeck)
     \<and> set (map cid (deck (initialState r0) @ playerHand (initialState r0)
                       @ dealerHand (initialState r0))) = set (map cid buildDeck)
     \<and> ((reducer r now s RESET_RUN = Inr s' \<or> reducer r now s SHUFFLE = Inr s')
          \<longrightarrow> set (map cid (deck s' @ playerHand s' @ dealerHand s'))
                = set (map cid buildDeck))"
proof -
  have wf: "wellFormed s" using assms by (rule reachable_wellFormed)
  then have ok: "cardsOK (deck s) (playerHand s) (dealerHand s)"
    by (simp add: wellFormed_cards)
  have 1: "distinct (map cid (deck s @ playerHand s @ dealerHand s))"
    using ok by (simp add: cardsOK_def)
  have 2: "set (map cid (deck s @ playerHand s @ dealerHand s)) \<subseteq> set (map cid buildDeck)"
    using ok by (auto simp add: cardsOK_def)
  have 3: "set (map cid (deck (initialState r0) @ playerHand (initialState r0)
                       @ dealerHand (initialState r0))) = set (map cid buildDeck)"
    by (simp add: initialState_def initialWith_def split_beta shuffle_set)
  have 4: "set (map cid (deck s' @ playerHand s' @ dealerHand s')) = set (map cid buildDeck)"
    if "reducer r now s RESET_RUN = Inr s'"
    using that
    by (auto simp add: reducer_cases caseRESET_RUN_eq initialWith_def shuffle_set)
  have 5: "set (map cid (deck s' @ playerHand s' @ dealerHand s')) = set (map cid buildDeck)"
    if "reducer r now s SHUFFLE = Inr s'"
  proof -
    from that have c: "caseSHUFFLE now s r = Inr s'"
      by (simp add: reducer_def wellFormed_normalize [OF wf])
    show ?thesis
      unfolding caseSHUFFLE_cards [OF c]
      using ok by (intro full_ids) (auto simp add: rebuildDeck_set cardsOK_def)
  qed
  from 1 2 3 4 5 show ?thesis by blast
qed

theorem C1_witness:
  "reachable (initialState rZero)
   \<and> distinct (map cid (deck (initialState rZero) @ playerHand (initialState rZero)
                        @ dealerHand (initialState rZero)))
   \<and> set (map cid (deck (initialState rZero) @ playerHand (initialState rZero)
                     @ dealerHand (initialState rZero))) = set (map cid buildDeck)"
  using C1_ids_distinct_and_canonical [OF reachable.init, of rZero rZero]
  by (simp add: reachable.init)

theorem C1_counterexample:
  "reachable (play [BET_ADD 10, START, STAND, DEALER_PLAY, NEXT_HAND])
   \<and> length (deck (play [BET_ADD 10, START, STAND, DEALER_PLAY, NEXT_HAND])
             @ playerHand (play [BET_ADD 10, START, STAND, DEALER_PLAY, NEXT_HAND])
             @ dealerHand (play [BET_ADD 10, START, STAND, DEALER_PLAY, NEXT_HAND])) < 77
   \<and> \<not> set (map cid buildDeck)
         \<subseteq> set (map cid
               (deck (play [BET_ADD 10, START, STAND, DEALER_PLAY, NEXT_HAND])
                @ playerHand (play [BET_ADD 10, START, STAND, DEALER_PLAY, NEXT_HAND])
                @ dealerHand (play [BET_ADD 10, START, STAND, DEALER_PLAY, NEXT_HAND])))"
proof -
  let ?D = "play [BET_ADD 10, START, STAND, DEALER_PLAY]"
  let ?N = "play [BET_ADD 10, START, STAND, DEALER_PLAY, NEXT_HAND]"
  have wf: "wellFormed ?D" by (rule play_wellFormed)
  then have "playerHand ?D \<noteq> []" using play_dealer by (simp add: wellFormed_cards)
  then have "0 < length (playerHand ?D)" by simp
  moreover have "length (deck ?D) + length (playerHand ?D) + length (dealerHand ?D) \<le> 77"
    using wf by (intro cardsOK_length) (simp add: wellFormed_cards)
  ultimately have short: "length (deck ?D) < 77" by linarith
  have all: "deck ?N @ playerHand ?N @ dealerHand ?N = deck ?D" by (simp add: play_next)
  have "\<not> set (map cid buildDeck) \<subseteq> set (map cid (deck ?D))"
  proof
    assume "set (map cid buildDeck) \<subseteq> set (map cid (deck ?D))"
    then have "card (set (map cid buildDeck)) \<le> card (set (map cid (deck ?D)))"
      by (intro card_mono) simp_all
    also have "\<dots> \<le> length (map cid (deck ?D))" by (rule card_length)
    finally show False
      using short canonicalIds_card by (simp add: canonicalIds_def)
  qed
  with short play_reachable [of "[BET_ADD 10, START, STAND, DEALER_PLAY, NEXT_HAND]"]
  show ?thesis unfolding all by simp
qed

text \<open>
  Claim C2. In the DEALER phase after a dealt bust, DEALER_PLAY ends the hand and pays
  on the dealer's final total alone: the bankroll grows by the bet when that total
  exceeds 21 and shrinks by the bet otherwise. From a reachable state the transition
  always returns.
\<close>

theorem C2_dealt_bust_uses_dealer_total_only:
  "(phase s = DEALER \<and> playerInitialBust s \<and> reducer r now s DEALER_PLAY = Inr s'
      \<longrightarrow> phase s' = DONE
          \<and> bankroll s' = (if handTotal (dealerHand s') > 21 then bankroll s + bet s
                           else bankroll s - bet s))
   \<and> (reachable s \<and> phase s = DEALER \<longrightarrow> (\<exists>s''. reducer r now s DEALER_PLAY = Inr s''))"
proof (intro conjI impI)
  assume a: "phase s = DEALER \<and> playerInitialBust s \<and> reducer r now s DEALER_PLAY = Inr s'"
  let ?st = "fst (normalize s r)"
  from a have "caseDEALER_PLAY now ?st (snd (normalize s r)) = Inr s'"
    by (simp add: reducer_cases)
  moreover have "phase ?st = DEALER" using a by simp
  ultimately obtain deck1 dh1 where s': "s' = resolveDealer now ?st deck1 dh1 (handTotal dh1)"
    using caseDEALER_PLAY_result by blast
  show "phase s' = DONE" by (simp add: s')
  show "bankroll s' = (if handTotal (dealerHand s') > 21 then bankroll s + bet s
                       else bankroll s - bet s)"
    using a by (simp add: s' resolveDealer_bankroll BUST_def)
next
  assume "reachable s \<and> phase s = DEALER"
  then show "\<exists>s''. reducer r now s DEALER_PLAY = Inr s''"
    using reachable_total by blast
qed

theorem C2_witness:
  "phase dealtBustDraws = DEALER \<and> playerInitialBust dealtBustDraws
   \<and> reducer rZero 0 dealtBustDraws DEALER_PLAY = Inr (after dealtBustDraws DEALER_PLAY)
   \<and> handTotal (playerHand dealtBustDraws) = 2203 / 100
   \<and> handTotal (dealerHand (after dealtBustDraws DEALER_PLAY)) = 2305 / 100
   \<and> bankroll (after dealtBustDraws DEALER_PLAY) = 10010
   \<and> phase dealtBustStands = DEALER \<and> playerInitialBust dealtBustStands
   \<and> reducer rZero 0 dealtBustStands DEALER_PLAY = Inr (after dealtBustStands DEALER_PLAY)
   \<and> handTotal (dealerHand (after dealtBustStands DEALER_PLAY)) = 1903 / 100
   \<and> bankroll (after dealtBustStands DEALER_PLAY) = 9990
   \<and> (\<exists>s''. reducer rZero 0 (play [BET_ADD 10, START, STAND]) DEALER_PLAY = Inr s'')"
proof -
  have d: "phase dealtBustDraws = DEALER" "playerInitialBust dealtBustDraws"
    "bankroll dealtBustDraws = 10000" "bet dealtBustDraws = 10"
    by (simp_all add: dealtBustDraws_def)
  have s: "phase dealtBustStands = DEALER" "playerInitialBust dealtBustStands"
    "bankroll dealtBustStands = 10000" "bet dealtBustStands = 10"
    by (simp_all add: dealtBustStands_def dealtBustDraws_def)
  have rd: "reducer rZero 0 dealtBustDraws DEALER_PLAY = Inr (after dealtBustDraws DEALER_PLAY)"
    by (rule after_reducer) (rule examples_wellFormed)
  have rs: "reducer rZero 0 dealtBustStands DEALER_PLAY = Inr (after dealtBustStands DEALER_PLAY)"
    by (rule after_reducer) (rule examples_wellFormed)
  have hd: "handTotal (dealerHand (after dealtBustDraws DEALER_PLAY)) = 2305 / 100"
    by (simp add: after_def reducer_def wellFormed_normalize examples_wellFormed
        dealtBustDraws_play example_totals)
  have hs: "handTotal (dealerHand (after dealtBustStands DEALER_PLAY)) = 1903 / 100"
    by (simp add: after_def reducer_def wellFormed_normalize examples_wellFormed
        dealtBustStands_play example_totals)
  have bd: "bankroll (after dealtBustDraws DEALER_PLAY) = 10010"
    using C2_dealt_bust_uses_dealer_total_only
      [of dealtBustDraws rZero 0 "after dealtBustDraws DEALER_PLAY"] d rd
    by (simp add: hd)
  have bs: "bankroll (after dealtBustStands DEALER_PLAY) = 9990"
    using C2_dealt_bust_uses_dealer_total_only
      [of dealtBustStands rZero 0 "after dealtBustStands DEALER_PLAY"] s rs
    by (simp add: hs)
  have "\<exists>s''. reducer rZero 0 (play [BET_ADD 10, START, STAND]) DEALER_PLAY = Inr s''"
    using C2_dealt_bust_uses_dealer_total_only
      [of "play [BET_ADD 10, START, STAND]" rZero 0] play_reachable play_stand
    by blast
  with d s rd rs hd hs bd bs example_totals(1) show ?thesis by blast
qed

text \<open>
  Claim C3, as amended. STAND in the PLAYER phase returns a state in the DEALER phase,
  with the bankroll, the bet and the cards as they were and a STAND entry appended to
  the log (of which the newest 200 entries are kept); nothing else of the normalized
  state changes but the message, and the dealer does not play in that transition. The
  hand is resolved by the DEALER_PLAY transition dispatched next, which takes the state
  to DONE. The claim as stated, that STAND itself ends in DONE, fails.
\<close>

theorem C3_stand_enters_dealer_phase:
  assumes "phase s = PLAYER"
  shows "\<exists>s'. reducer r now s STAND = Inr s' \<and> phase s' = DEALER
           \<and> bankroll s' = bankroll s \<and> bet s' = bet s
           \<and> deck s' = deck (fst (normalize s r))
           \<and> playerHand s' = playerHand (fst (normalize s r))
           \<and> dealerHand s' = dealerHand (fst (normalize s r))
           \<and> kind (last (logS s')) = ''STAND''
           \<and> logS s' =
               drop (length (logS s) + 1 - 200)
                 (logS s @
                  [\<lparr>atS = now, kind = ''STAND'', noteS = ''Player stands. Dealer phase.'',
                    snapshot = snapshotOf ((fst (normalize s r))
                                 \<lparr>phase := DEALER, message := ''Dealer plays...''\<rparr>)\<rparr>])
           \<and> s' = (fst (normalize s r))
                  \<lparr>phase := DEALER, message := ''Dealer plays...'', logS := logS s'\<rparr>
           \<and> (reachable s \<longrightarrow>
                 (\<exists>s''. reducer r2 now2 s' DEALER_PLAY = Inr s'' \<and> phase s'' = DONE))"
proof -
  let ?st = "fst (normalize s r)"
  let ?s' = "pushLog now (?st\<lparr>phase := DEALER, message := ''Dealer plays...''\<rparr>)
               ''STAND'' ''Player stands. Dealer phase.''"
  have run: "reducer r now s STAND = Inr ?s'"
    using assms by (simp add: reducer_cases caseSTAND_def)
  have res: "\<exists>s''. reducer r2 now2 ?s' DEALER_PLAY = Inr s'' \<and> phase s'' = DONE"
    if "reachable s"
  proof -
    have "reachable ?s'" using that run by (rule reachable.step)
    then have wf: "wellFormed ?s'" by (rule reachable_wellFormed)
    have "phase ?s' = DEALER" by simp
    from caseDEALER_PLAY_wellFormed [OF wf this, of now2 r2] show ?thesis
      by (auto simp add: reducer_def wellFormed_normalize [OF wf])
  qed
  have lg: "logS ?s' =
      drop (length (logS s) + 1 - 200)
        (logS s @
         [\<lparr>atS = now, kind = ''STAND'', noteS = ''Player stands. Dealer phase.'',
           snapshot = snapshotOf (?st\<lparr>phase := DEALER, message := ''Dealer plays...''\<rparr>)\<rparr>])"
    by (simp add: pushLog_log Let_def)
  have eq: "?s' = ?st\<lparr>phase := DEALER, message := ''Dealer plays...'', logS := logS ?s'\<rparr>"
    by (simp add: pushLog_def Let_def)
  have fields: "phase ?s' = DEALER" "bankroll ?s' = bankroll s" "bet ?s' = bet s"
    "deck ?s' = deck ?st" "playerHand ?s' = playerHand ?st" "dealerHand ?s' = dealerHand ?st"
    "kind (last (logS ?s')) = ''STAND''"
    by (simp_all add: pushLog_last)
  from run fields lg eq res show ?thesis by blast
qed

theorem C3_counterexample:
  "reachable (play [BET_ADD 10, START]) \<and> phase (play [BET_ADD 10, START]) = PLAYER
   \<and> reducer rZero 0 (play [BET_ADD 10, START]) STAND
       = Inr (play [BET_ADD 10, START, STAND])
   \<and> phase (play [BET_ADD 10, START, STAND]) = DEALER
   \<and> phase (play [BET_ADD 10, START, STAND]) \<noteq> DONE"
proof -
  have "reducer rZero 0 (play [BET_ADD 10, START]) STAND
          = Inr (after (play [BET_ADD 10, START]) STAND)"
    by (rule after_reducer) (rule play_wellFormed)
  then have "reducer rZero 0 (play [BET_ADD 10, START]) STAND
          = Inr (play [BET_ADD 10, START, STAND])"
    by (simp add: play_snoc [of "[BET_ADD 10, START]", simplified])
  then show ?thesis
    using play_reachable [of "[BET_ADD 10, START]"] play_start(1) play_stand by simp
qed

theorem C3_witness:
  "phase (play [BET_ADD 10, START]) = PLAYER
   \<and> (\<exists>s'. reducer rZero 0 (play [BET_ADD 10, START]) STAND = Inr s' \<and> phase s' = DEALER
         \<and> bankroll s' = 10000 \<and> bet s' = 10 \<and> kind (last (logS s')) = ''STAND''
         \<and> (\<exists>s''. reducer rZero 0 s' DEALER_PLAY = Inr s'' \<and> phase s'' = DONE))"
  using C3_stand_enters_dealer_phase [OF play_start(1), of rZero 0 rZero 0]
    play_reachable [of "[BET_ADD 10, START]"] play_start
  by auto

text \<open>
  Claim C4, as amended. An action submitted in the wrong phase (a bet action or START
  outside LOBBY, DRAW or STAND outside PLAYER, DEALER_PLAY outside DEALER, NEXT_HAND
  outside DONE) returns the normalized state as it is, with no new message and no audit
  entry. A START in LOBBY without a bet or with a bet above the bankroll, and a DRAW
  after a dealt bust, return the normalized state with the message replaced and one
  audit entry appended, of kind START_BLOCKED or DRAW_BLOCKED; \<open>pushLog\<close> changes the log
  only. All of these return a state. The claim as stated, that every rejection updates
  the message and logs a blocked entry, fails for the wrong-phase rejections.
\<close>

theorem C4_rejections:
  "(phase s \<noteq> LOBBY \<longrightarrow>
       reducer r now s (BET_ADD inc) = Inr (fst (normalize s r))
     \<and> reducer r now s RESET_BET = Inr (fst (normalize s r))
     \<and> reducer r now s BET_PLACE_CTA = Inr (fst (normalize s r))
     \<and> reducer r now s START = Inr (fst (normalize s r)))
   \<and> (phase s \<noteq> PLAYER \<longrightarrow>
       reducer r now s (DRAW n) = Inr (fst (normalize s r))
     \<and> reducer r now s STAND = Inr (fst (normalize s r)))
   \<and> (phase s \<noteq> DEALER \<longrightarrow> reducer r now s DEALER_PLAY = Inr (fst (normalize s r)))
   \<and> (phase s \<noteq> DONE \<longrightarrow> reducer r now s NEXT_HAND = Inr (fst (normalize s r)))
   \<and> (phase s = LOBBY \<and> bet s \<le> 0 \<longrightarrow>
       reducer r now s START =
         Inr (pushLog now ((fst (normalize s r))\<lparr>message := ''You must place a bet first.''\<rparr>)
                ''START_BLOCKED'' ''Start blocked: no bet.''))
   \<and> (phase s = LOBBY \<and> 0 < bet s \<and> bankroll s < bet s \<longrightarrow>
       reducer r now s START =
         Inr (pushLog now ((fst (normalize s r))\<lparr>message := ''Bet exceeds bankroll.''\<rparr>)
                ''START_BLOCKED'' ''Start blocked: bet > bankroll.''))
   \<and> (phase s = PLAYER \<and> playerInitialBust s \<longrightarrow>
       reducer r now s (DRAW n) =
         Inr (pushLog now
                ((fst (normalize s r))\<lparr>message := ''Dealt bust. Only STAND is allowed.''\<rparr>)
                ''DRAW_BLOCKED'' ''Draw blocked: dealt bust.''))
   \<and> (pushLog now s k t)\<lparr>logS := logS s\<rparr> = s
   \<and> logS (pushLog now s k t) =
       drop (length (logS s) + 1 - 200)
         (logS s @ [\<lparr>atS = now, kind = k, noteS = t, snapshot = snapshotOf s\<rparr>])"
proof -
  have 1: "reducer r now s (BET_ADD inc) = Inr (fst (normalize s r))
     \<and> reducer r now s RESET_BET = Inr (fst (normalize s r))
     \<and> reducer r now s BET_PLACE_CTA = Inr (fst (normalize s r))
     \<and> reducer r now s START = Inr (fst (normalize s r))" if "phase s \<noteq> LOBBY"
    using that
    by (simp add: reducer_cases caseBET_ADD_def caseRESET_BET_def caseBET_PLACE_CTA_def
        caseSTART_def)
  have 2: "reducer r now s (DRAW n) = Inr (fst (normalize s r))
     \<and> reducer r now s STAND = Inr (fst (normalize s r))" if "phase s \<noteq> PLAYER"
    using that by (simp add: reducer_cases caseDRAW_def caseSTAND_def)
  have 3: "reducer r now s DEALER_PLAY = Inr (fst (normalize s r))" if "phase s \<noteq> DEALER"
    using that by (simp add: reducer_cases caseDEALER_PLAY_def)
  have 4: "reducer r now s NEXT_HAND = Inr (fst (normalize s r))" if "phase s \<noteq> DONE"
    using that by (simp add: reducer_cases caseNEXT_HAND_def)
  have 5: "reducer r now s START =
         Inr (pushLog now ((fst (normalize s r))\<lparr>message := ''You must place a bet first.''\<rparr>)
                ''START_BLOCKED'' ''Start blocked: no bet.'')"
    if "phase s = LOBBY \<and> bet s \<le> 0"
    using that by (simp add: reducer_cases caseSTART_def)
  have 6: "reducer r now s START =
         Inr (pushLog now ((fst (normalize s r))\<lparr>message := ''Bet exceeds bankroll.''\<rparr>)
                ''START_BLOCKED'' ''Start blocked: bet > bankroll.'')"
    if "phase s = LOBBY \<and> 0 < bet s \<and> bankroll s < bet s"
    using that by (simp add: reducer_cases caseSTART_def)
  have 7: "reducer r now s (DRAW n) =
         Inr (pushLog now
                ((fst (normalize s r))\<lparr>message := ''Dealt bust. Only STAND is allowed.''\<rparr>)
                ''DRAW_BLOCKED'' ''Draw blocked: dealt bust.'')"
    if "phase s = PLAYER \<and> playerInitialBust s"
    using that by (simp add: reducer_cases caseDRAW_def dealtBustMessage_def)
  have 8: "(pushLog now s k t)\<lparr>logS := logS s\<rparr> = s"
    by (simp add: pushLog_def Let_def)
  have 9: "logS (pushLog now s k t) =
       drop (length (logS s) + 1 - 200)
         (logS s @ [\<lparr>atS = now, kind = k, noteS = t, snapshot = snapshotOf s\<rparr>])"
    by (simp add: pushLog_log Let_def)
  from 1 2 3 4 5 6 7 8 9 show ?thesis by blast
qed

theorem C4_witness:
  "phase (play [BET_ADD 10, START]) \<noteq> LOBBY
   \<and> reducer rZero 0 (play [BET_ADD 10, START]) (BET_ADD 10) = Inr (play [BET_ADD 10, START])
   \<and> phase (initialState rZero) = LOBBY \<and> bet (initialState rZero) \<le> 0
   \<and> reducer rZero 0 (initialState rZero) START =
       Inr (pushLog 0 ((initialState rZero)\<lparr>message := ''You must place a bet first.''\<rparr>)
              ''START_BLOCKED'' ''Start blocked: no bet.'')
   \<and> phase dealtBustTurn = PLAYER \<and> playerInitialBust dealtBustTurn
   \<and> reducer rZero 0 dealtBustTurn (DRAW One) =
       Inr (pushLog 0 (dealtBustTurn\<lparr>message := ''Dealt bust. Only STAND is allowed.''\<rparr>)
              ''DRAW_BLOCKED'' ''Draw blocked: dealt bust.'')"
proof -
  have n1: "fst (normalize (play [BET_ADD 10, START]) rZero) = play [BET_ADD 10, START]"
    by (simp add: wellFormed_normalize [OF play_wellFormed])
  have n2: "fst (normalize (initialState rZero) rZero) = initialState rZero"
    by (simp add: wellFormed_normalize [OF initialState_wellFormed])
  have n3: "fst (normalize dealtBustTurn rZero) = dealtBustTurn"
    by (simp add: wellFormed_normalize [OF examples_wellFormed(3)])
  have t: "phase dealtBustTurn = PLAYER" "playerInitialBust dealtBustTurn"
    by (simp_all add: dealtBustTurn_def dealtBustDraws_def)
  from C4_rejections [of "play [BET_ADD 10, START]" rZero 0 10]
    C4_rejections [of "initialState rZero" rZero 0]
    C4_rejections [of dealtBustTurn rZero 0 _ One]
  show ?thesis
    unfolding n1 n2 n3 using play_start(1) t by (simp add: initialState_fields)
qed

theorem C4_counterexample:
  "reachable (play [BET_ADD 10, START]) \<and> phase (play [BET_ADD 10, START]) = PLAYER
   \<and> reducer rZero 0 (play [BET_ADD 10, START]) (BET_ADD 10)
       = Inr (play [BET_ADD 10, START])
   \<and> kind (last (logS (play [BET_ADD 10, START]))) = ''START''"
proof -
  let ?P = "play [BET_ADD 10, START]"
  have "reducer rZero 0 ?P (BET_ADD 10) = Inr ?P"
    using play_start(1)
    by (simp add: reducer_def wellFormed_normalize [OF play_wellFormed] caseBET_ADD_def)
  with play_reachable [of "[BET_ADD 10, START]"] play_start show ?thesis by simp
qed

text \<open>
  Claim C5. For every deck, every set of ids in play and every n that leaves room among
  the 77 canonical ids, \<open>takeUnique\<close> returns, with exactly n cards whose ids are pairwise
  distinct and none of them in play.
\<close>

theorem C5_takeUnique_returns_n_unique:
  assumes "n \<le> 77 - card (inPlay \<inter> cid ` set buildDeck)"
  shows "\<exists>taken rest inPlay' r'.
           takeUnique deck0 n inPlay r = Some (taken, rest, inPlay', r')
           \<and> length taken = n \<and> distinct (map cid taken)
           \<and> cid ` set taken \<inter> inPlay = {}"
proof -
  have "card (inPlay \<inter> canonicalIds) + n \<le> 77"
    using assms blocked_canonical_le [of inPlay] by (simp add: canonicalIds_def)
  then have "takePostWeak n [] inPlay (takeUnique deck0 n inPlay r)"
    by (rule takeUnique_any)
  then show ?thesis unfolding takePostWeak_def by auto
qed

theorem C5_witness:
  "(2::nat) \<le> 77 - card ({''Heart-7''} \<inter> cid ` set buildDeck)
   \<and> (\<exists>taken rest inPlay' r'.
         takeUnique [mkCard Heart 7, mkCard Heart 5] 2 {''Heart-7''} rZero
           = Some (taken, rest, inPlay', r')
         \<and> length taken = 2 \<and> distinct (map cid taken)
         \<and> cid ` set taken \<inter> {''Heart-7''} = {})"
proof -
  have "card ({''Heart-7''} \<inter> cid ` set buildDeck) \<le> card {''Heart-7''}"
    by (intro card_mono) simp_all
  then have h: "(2::nat) \<le> 77 - card ({''Heart-7''} \<inter> cid ` set buildDeck)" by simp
  from h C5_takeUnique_returns_n_unique
    [OF h, of "[mkCard Heart 7, mkCard Heart 5]" rZero]
  show ?thesis by blast
qed

text \<open>
  Claim C6. From a reachable state in the DEALER phase DEALER_PLAY returns; the dealer's
  final hand is the old hand with the drawn cards appended, its total is above 21 or at
  least 17, every total the dealer drew on was below 17, and at most 50 cards were
  drawn, so the cap of the loop was not what stopped it.
\<close>

theorem C6_dealer_stands_at_17:
  assumes "reachable s" "phase s = DEALER"
  shows "\<exists>s' extra. reducer r now s DEALER_PLAY = Inr s'
           \<and> dealerHand s' = dealerHand s @ extra
           \<and> (handTotal (dealerHand s') > 21 \<or> handTotal (dealerHand s') \<ge> 17)
           \<and> (\<forall>k < length extra. handTotal (dealerHand s @ take k extra) < 17)
           \<and> length extra \<le> 50"
proof -
  have wf: "wellFormed s" using assms(1) by (rule reachable_wellFormed)
  from caseDEALER_PLAY_wellFormed [OF wf assms(2), of now r] obtain deck1 extra where
    run: "caseDEALER_PLAY now s r =
            Inr (resolveDealer now s deck1 (dealerHand s @ extra)
                   (handTotal (dealerHand s @ extra)))"
    and st: "DEALER_STAND \<le> handTotal (dealerHand s @ extra)"
    and pre: "list_all (\<lambda>k. handTotal (dealerHand s @ take k extra) < DEALER_STAND)
                [0..<length extra]"
    and le: "length extra \<le> 15"
    by blast
  let ?s' = "resolveDealer now s deck1 (dealerHand s @ extra) (handTotal (dealerHand s @ extra))"
  have 1: "reducer r now s DEALER_PLAY = Inr ?s'"
    using run by (simp add: reducer_def wellFormed_normalize [OF wf])
  have 2: "dealerHand ?s' = dealerHand s @ extra" by simp
  have 3: "handTotal (dealerHand ?s') > 21 \<or> handTotal (dealerHand ?s') \<ge> 17"
    using st by (simp add: DEALER_STAND_def)
  have 4: "\<forall>k < length extra. handTotal (dealerHand s @ take k extra) < 17"
    using pre by (simp add: list_all_iff DEALER_STAND_def)
  have 5: "length extra \<le> 50" using le by simp
  from 1 2 3 4 5 show ?thesis by blast
qed

theorem C6_witness:
  "reachable (play [BET_ADD 10, START, STAND])
   \<and> phase (play [BET_ADD 10, START, STAND]) = DEALER
   \<and> (\<exists>s' extra. reducer rZero 0 (play [BET_ADD 10, START, STAND]) DEALER_PLAY = Inr s'
         \<and> dealerHand s' = dealerHand (play [BET_ADD 10, START, STAND]) @ extra
         \<and> handTotal (dealerHand s') \<ge> 17
         \<and> length extra \<le> 50)"
proof -
  from C6_dealer_stands_at_17 [OF play_reachable play_stand, of rZero 0]
  obtain s' extra where
    "reducer rZero 0 (play [BET_ADD 10, START, STAND]) DEALER_PLAY = Inr s'"
    "dealerHand s' = dealerHand (play [BET_ADD 10, START, STAND]) @ extra"
    "handTotal (dealerHand s') > 21 \<or> handTotal (dealerHand s') \<ge> 17"
    "length extra \<le> 50"
    by blast
  moreover from this(3) have "handTotal (dealerHand s') \<ge> 17" by auto
  ultimately show ?thesis
    using play_reachable [of "[BET_ADD 10, START, STAND]"] play_stand by blast
qed

text \<open>
  Claim C7. In every reachable state the bet is between 0 and 50. A transition changes
  the bet only from the LOBBY phase, or when the action is NEXT_HAND or RESET_RUN. From
  a LOBBY state with bet 0, BET_ADD 10 gives bet 10 and BET_ADD 50 after it gives 50.
\<close>

theorem C7_bet_bounds:
  "(reachable s \<longrightarrow> 0 \<le> bet s \<and> bet s \<le> 50)
   \<and> (reducer r now s a = Inr s' \<and> bet s' \<noteq> bet s
        \<longrightarrow> phase s = LOBBY \<or> a = NEXT_HAND \<or> a = RESET_RUN)
   \<and> (phase s = LOBBY \<and> bet s = 0
        \<longrightarrow> (\<exists>s1 s2. reducer r1 now1 s (BET_ADD 10) = Inr s1 \<and> phase s1 = LOBBY
                 \<and> bet s1 = 10
                 \<and> reducer r2 now2 s1 (BET_ADD 50) = Inr s2 \<and> bet s2 = 50))"
proof -
  have 1: "0 \<le> bet s \<and> bet s \<le> 50" if "reachable s"
  proof -
    from that have "wellFormed s" by (rule reachable_wellFormed)
    then show ?thesis by (simp add: wellFormed_cards)
  qed
  have 2: "phase s = LOBBY \<or> a = NEXT_HAND \<or> a = RESET_RUN"
    if "reducer r now s a = Inr s' \<and> bet s' \<noteq> bet s"
    using that reducer_keeps_bet [of r now s a s'] by blast
  have 3: "\<exists>s1 s2. reducer r1 now1 s (BET_ADD 10) = Inr s1 \<and> phase s1 = LOBBY
      \<and> bet s1 = 10 \<and> reducer r2 now2 s1 (BET_ADD 50) = Inr s2 \<and> bet s2 = 50"
    if a: "phase s = LOBBY \<and> bet s = 0"
  proof -
    let ?st = "fst (normalize s r1)"
    let ?s1 = "pushLog now1 (?st\<lparr>bet := 10, message := ''Bet set. Press START to deal.''\<rparr>)
                 ''BET_ADD'' (''Bet +'' @ intToString 10 @ '' -> '' @ intToString 10 @ ''.'')"
    have r1: "reducer r1 now1 s (BET_ADD 10) = Inr ?s1"
      using a by (simp add: reducer_cases caseBET_ADD_def clampBet_def MAX_BET_def Let_def)
    have p1: "phase ?s1 = LOBBY" "bet ?s1 = 10" using a by simp_all
    have "\<exists>s2. reducer r2 now2 ?s1 (BET_ADD 50) = Inr s2 \<and> bet s2 = 50"
      using a by (simp add: reducer_cases caseBET_ADD_def clampBet_def MAX_BET_def Let_def)
    then obtain s2 where "reducer r2 now2 ?s1 (BET_ADD 50) = Inr s2" "bet s2 = 50" by blast
    with r1 p1 show ?thesis by blast
  qed
  from 1 2 3 show ?thesis by blast
qed

theorem C7_witness:
  "reachable (initialState rZero)
   \<and> 0 \<le> bet (initialState rZero) \<and> bet (initialState rZero) \<le> 50
   \<and> phase (initialState rZero) = LOBBY \<and> bet (initialState rZero) = 0
   \<and> (\<exists>s1 s2. reducer rZero 0 (initialState rZero) (BET_ADD 10) = Inr s1
         \<and> phase s1 = LOBBY \<and> bet s1 = 10
         \<and> reducer rZero 0 s1 (BET_ADD 50) = Inr s2 \<and> bet s2 = 50)"
  using C7_bet_bounds [of "initialState rZero" rZero 0 RESET_RUN "initialState rZero"
      rZero 0 rZero 0]
  by (simp add: reachable.init initialState_fields)

text \<open>
  Claim C8. In the double arithmetic of the code, \<open>round2\<close> multiplies by 100, rounds
  the product to the nearest integer with a tie going up, and divides by 100; a card's
  score is \<open>round2\<close> of value + rank/100 and a hand's total is \<open>round2\<close> of the running
  sum of its cards' scores. For every card of the canonical deck the score is the
  double nearest to value + rank/100, and for every hand of canonical cards the total
  is the double nearest to the exact sum of value + rank/100 over the hand, which is the
  total of the exact model. "Spade-11" scores 11.01 and "Star-1" scores 1.07, the
  doubles that these literals denote. The rounding is needed: for the hand Spade-1,
  Spade-2 the running sum is the double 3.0199999999999996, its hundredfold is
  301.99999999999994, which is rounded up to 302, and the total is 3.02. A tie goes
  up (0.125 gives 0.13, -0.125 gives -0.12), and it is the double product that is
  rounded: the double 0.015 lies below 15/1000, its hundredfold is the double 1.5, and
  \<open>round2\<close> gives 0.02 where the nearest hundredth of its exact value is 0.01.
\<close>

theorem C8_scoring:
  "(\<exists>k::int. round2D n = toDouble (of_int k / 100)
        \<and> toDouble (n * 100) - 1 / 2 < of_int k \<and> of_int k \<le> toDouble (n * 100) + 1 / 2)
   \<and> cardScoreD c = round2D (toDouble (of_int (val c) + toDouble (of_int (rank c) / 100)))
   \<and> handTotalD hand = round2D (foldl (\<lambda>sum c. toDouble (sum + cardScoreD c)) 0 hand)
   \<and> (c \<in> set buildDeck \<longrightarrow>
         cardScoreD c = toDouble (of_int (val c) + of_int (rank c) / 100)
         \<and> cardScoreD c = toDouble (cardScore c))
   \<and> (set hand \<subseteq> set buildDeck \<and> length hand \<le> 77 \<longrightarrow>
         handTotalD hand
           = toDouble (sum_list (map (\<lambda>c. of_int (val c) + of_int (rank c) / 100) hand))
         \<and> handTotalD hand = toDouble (handTotal hand))
   \<and> cid (buildDeck ! 10) = ''Spade-11'' \<and> rank (buildDeck ! 10) = 1
   \<and> cardScoreD (buildDeck ! 10) = toDouble (1101 / 100)
   \<and> toDouble (1101 / 100) = 6198078987168645 / 562949953421312
   \<and> cid (buildDeck ! 66) = ''Star-1'' \<and> rank (buildDeck ! 66) = 7
   \<and> cardScoreD (buildDeck ! 66) = toDouble (107 / 100)
   \<and> toDouble (107 / 100) = 4818851601286431 / 4503599627370496
   \<and> cid (buildDeck ! 0) = ''Spade-1'' \<and> cid (buildDeck ! 1) = ''Spade-2''
   \<and> foldl (\<lambda>sum c. toDouble (sum + cardScoreD c)) 0 [buildDeck ! 0, buildDeck ! 1]
        = 850054429666181 / 281474976710656
   \<and> toDouble (850054429666181 / 281474976710656 * 100) = 5312840185413631 / 17592186044416
   \<and> \<lfloor>5312840185413631 / 17592186044416 :: rat\<rfloor> = 301
   \<and> MathRound (5312840185413631 / 17592186044416) = 302
   \<and> handTotalD [buildDeck ! 0, buildDeck ! 1] = toDouble (302 / 100)
   \<and> toDouble (302 / 100) = 6800435437329449 / 2251799813685248
   \<and> round2D (1 / 8) = toDouble (13 / 100)
   \<and> round2D (- (1 / 8)) = toDouble (- (12 / 100))
   \<and> toDouble (3 / 200) = 1080863910568919 / 72057594037927936
   \<and> round2D (toDouble (3 / 200)) = toDouble (2 / 100)
   \<and> round2 (toDouble (3 / 200)) = 1 / 100"
proof -
  have a: "\<exists>k::int. round2D n = toDouble (of_int k / 100)
        \<and> toDouble (n * 100) - 1 / 2 < of_int k \<and> of_int k \<le> toDouble (n * 100) + 1 / 2"
    using MathRound_half_up [of "toDouble (n * 100)"] unfolding round2D_def by blast
  have b: "cardScoreD c = round2D (toDouble (of_int (val c) + toDouble (of_int (rank c) / 100)))"
    by (simp add: cardScoreD_def)
  have c: "handTotalD hand = round2D (foldl (\<lambda>sum c. toDouble (sum + cardScoreD c)) 0 hand)"
    by (simp add: handTotalD_def)
  have d: "c \<in> set buildDeck \<longrightarrow>
         cardScoreD c = toDouble (of_int (val c) + of_int (rank c) / 100)
         \<and> cardScoreD c = toDouble (cardScore c)"
  proof
    assume m: "c \<in> set buildDeck"
    have "cardScore c = of_int (val c) + of_int (rank c) / 100"
      by (simp only: cardScore_exact hundredths)
    with canonical_scoreD [OF m]
    show "cardScoreD c = toDouble (of_int (val c) + of_int (rank c) / 100)
         \<and> cardScoreD c = toDouble (cardScore c)"
      by simp
  qed
  have e: "set hand \<subseteq> set buildDeck \<and> length hand \<le> 77 \<longrightarrow>
         handTotalD hand
           = toDouble (sum_list (map (\<lambda>c. of_int (val c) + of_int (rank c) / 100) hand))
         \<and> handTotalD hand = toDouble (handTotal hand)"
    using handTotalD_exact [of hand] handTotalD_handTotal [of hand] by blast
  have f: "cid (buildDeck ! 10) = ''Spade-11''" "rank (buildDeck ! 10) = 1"
    "cid (buildDeck ! 66) = ''Star-1''" "rank (buildDeck ! 66) = 7"
    "cid (buildDeck ! 0) = ''Spade-1''" "cid (buildDeck ! 1) = ''Spade-2''"
    by code_simp+
  have m: "buildDeck ! 10 \<in> set buildDeck" "buildDeck ! 66 \<in> set buildDeck"
    "buildDeck ! 0 \<in> set buildDeck" "buildDeck ! 1 \<in> set buildDeck"
    by (simp_all add: buildDeck_length)
  have v: "val (buildDeck ! 10) = 11" "rank (buildDeck ! 10) = 1"
    "val (buildDeck ! 66) = 1" "rank (buildDeck ! 66) = 7"
    "val (buildDeck ! 0) = 1" "rank (buildDeck ! 0) = 1"
    "val (buildDeck ! 1) = 2" "rank (buildDeck ! 1) = 1"
    by code_simp+
  have g: "cardScoreD (buildDeck ! 10) = toDouble (1101 / 100)"
    "cardScoreD (buildDeck ! 66) = toDouble (107 / 100)"
    "cardScoreD (buildDeck ! 0) = toDouble (101 / 100)"
    "cardScoreD (buildDeck ! 1) = toDouble (201 / 100)"
    unfolding m [THEN canonical_scoreD] v by simp_all
  have t: "toDouble (1101 / 100) = 6198078987168645 / 562949953421312"
    "toDouble (107 / 100) = 4818851601286431 / 4503599627370496"
    "toDouble (101 / 100) = 4548635623644201 / 4503599627370496"
    "toDouble (201 / 100) = 1131529406376837 / 562949953421312"
    "toDouble (0 + 4548635623644201 / 4503599627370496) = 4548635623644201 / 4503599627370496"
    "toDouble (4548635623644201 / 4503599627370496 + 1131529406376837 / 562949953421312)
       = 850054429666181 / 281474976710656"
    "toDouble (850054429666181 / 281474976710656 * 100) = 5312840185413631 / 17592186044416"
    "toDouble (302 / 100) = 6800435437329449 / 2251799813685248"
    "toDouble (3 / 200) = 1080863910568919 / 72057594037927936"
    by code_simp+
  have h: "foldl (\<lambda>sum c. toDouble (sum + cardScoreD c)) 0 [buildDeck ! 0, buildDeck ! 1]
        = 850054429666181 / 281474976710656"
    by (simp only: foldl.simps g t)
  have r: "\<lfloor>5312840185413631 / 17592186044416 :: rat\<rfloor> = 301"
    "MathRound (5312840185413631 / 17592186044416) = 302"
    by code_simp+
  have "of_int (MathRound (5312840185413631 / 17592186044416)) / 100 = (302 / 100 :: rat)"
    unfolding r by simp
  then have k: "handTotalD [buildDeck ! 0, buildDeck ! 1] = toDouble (302 / 100)"
    by (simp only: handTotalD_def h round2D_def t)
  have i: "round2D (1 / 8) = toDouble (13 / 100)"
    "round2D (- (1 / 8)) = toDouble (- (12 / 100))"
    "round2D (toDouble (3 / 200)) = toDouble (2 / 100)"
    "round2 (toDouble (3 / 200)) = 1 / 100"
    by code_simp+
  show ?thesis
    apply (intro conjI)
    apply (rule a) apply (rule b) apply (rule c) apply (rule d) apply (rule e)
    apply (rule f g h i t r k)+
    done
qed

theorem C8_witness:
  "buildDeck ! 66 \<in> set buildDeck
   \<and> set [mkCard Spade 11, mkCard Heart 11] \<subseteq> set buildDeck
   \<and> length [mkCard Spade 11, mkCard Heart 11] \<le> 77
   \<and> cardScoreD (buildDeck ! 66) = toDouble (1 + 7 / 100)
   \<and> handTotalD [mkCard Spade 11, mkCard Heart 11] = toDouble (2203 / 100)"
proof -
  have m: "buildDeck ! 66 \<in> set buildDeck" by (simp add: buildDeck_length)
  have s: "set [mkCard Spade 11, mkCard Heart 11] \<subseteq> set buildDeck" by code_simp
  have l: "length [mkCard Spade 11, mkCard Heart 11] \<le> 77" by simp
  have v: "val (buildDeck ! 66) = 1" "rank (buildDeck ! 66) = 7" by code_simp+
  have t: "sum_list (map (\<lambda>c. (of_int (val c) :: rat) + of_int (rank c) / 100)
             [mkCard Spade 11, mkCard Heart 11]) = 2203 / 100"
    by (simp add: mkCard_def)
  note T = C8_scoring [of 0 "buildDeck ! 66" "[mkCard Spade 11, mkCard Heart 11]"]
  note c1 = T [THEN conjunct2, THEN conjunct2, THEN conjunct2, THEN conjunct1,
    rule_format, OF m, THEN conjunct1]
  note h1 = T [THEN conjunct2, THEN conjunct2, THEN conjunct2, THEN conjunct2, THEN conjunct1,
    rule_format, OF conjI [OF s l], THEN conjunct1]
  have "cardScoreD (buildDeck ! 66) = toDouble (1 + 7 / 100)"
    using c1 unfolding v by simp
  moreover have "handTotalD [mkCard Spade 11, mkCard Heart 11] = toDouble (2203 / 100)"
    using h1 unfolding t .
  ultimately show ?thesis using m s l by blast
qed

text \<open>
  Claim C9. \<open>normalize\<close> returns a state with duplicate-free hands and a duplicate-free
  deck disjoint from them as it is, using no randomness, and normalizing the result of
  \<open>normalize\<close> again changes nothing.
\<close>

theorem C9_normalize_idempotent:
  "(distinct (map cid (playerHand s)) \<and> distinct (map cid (dealerHand s))
      \<and> distinct (map cid (deck s))
      \<and> cid ` set (deck s) \<inter> (cid ` set (playerHand s) \<union> cid ` set (dealerHand s)) = {}
      \<longrightarrow> normalize s r = (s, r))
   \<and> normalize (fst (normalize s0 r0)) r1 = (fst (normalize s0 r0), r1)"
proof
  show "distinct (map cid (playerHand s)) \<and> distinct (map cid (dealerHand s))
      \<and> distinct (map cid (deck s))
      \<and> cid ` set (deck s) \<inter> (cid ` set (playerHand s) \<union> cid ` set (dealerHand s)) = {}
      \<longrightarrow> normalize s r = (s, r)"
    using normalize_valid [of s r] by blast
next
  obtain s' r' where n: "normalize s0 r0 = (s', r')" by (cases "normalize s0 r0")
  from normalize_output_valid [OF n] have "normalize s' r1 = (s', r1)"
    by (rule normalize_valid)
  with n show "normalize (fst (normalize s0 r0)) r1 = (fst (normalize s0 r0), r1)" by simp
qed

theorem C9_witness:
  "normalize dealtBustTurn rZero = (dealtBustTurn, rZero)
   \<and> map cid (playerHand corruptTurn) = [''Spade-11'', ''Heart-7'', ''Spade-11'']
   \<and> map cid (playerHand (fst (normalize corruptTurn rZero))) = [''Spade-11'', ''Heart-7'']
   \<and> normalize (fst (normalize corruptTurn rZero)) rZero
       = (fst (normalize corruptTurn rZero), rZero)"
proof -
  have v: "distinct (map cid (playerHand dealtBustTurn))
      \<and> distinct (map cid (dealerHand dealtBustTurn))
      \<and> distinct (map cid (deck dealtBustTurn))
      \<and> cid ` set (deck dealtBustTurn)
          \<inter> (cid ` set (playerHand dealtBustTurn) \<union> cid ` set (dealerHand dealtBustTurn)) = {}"
    using examples_wellFormed(3) by (auto simp add: wellFormed_def allCards_def)
  have c: "map cid (playerHand corruptTurn) = [''Spade-11'', ''Heart-7'', ''Spade-11'']"
    "map cid (dedupeHand (playerHand corruptTurn)) = [''Spade-11'', ''Heart-7'']"
    by code_simp+
  from C9_normalize_idempotent [of dealtBustTurn rZero corruptTurn rZero rZero] v c
  show ?thesis by (simp add: normalize_fields [of corruptTurn])
qed

text \<open>
  Claim C10. In every reachable state the bankroll is not negative. While a hand is
  played (PLAYER and DEALER phases) the bet is covered by the bankroll and no action but
  RESET_RUN changes it; a transition other than RESET_RUN that lowers the bankroll
  lowers it by the bet, starts in one of these two phases and ends in DONE. The initial
  bankroll is 10000.
\<close>

theorem C10_bankroll_never_negative:
  assumes "reachable s"
  shows "0 \<le> bankroll s
     \<and> (phase s = PLAYER \<or> phase s = DEALER \<longrightarrow> bet s \<le> bankroll s)
     \<and> (reducer r now s a = Inr s' \<and> a \<noteq> RESET_RUN
           \<and> (phase s = PLAYER \<or> phase s = DEALER)
          \<longrightarrow> bet s' = bet s)
     \<and> (reducer r now s a = Inr s' \<and> a \<noteq> RESET_RUN \<and> bankroll s' < bankroll s
          \<longrightarrow> bankroll s' = bankroll s - bet s \<and> phase s' = DONE
              \<and> (phase s = PLAYER \<or> phase s = DEALER))
     \<and> bankroll (initialState r0) = 10000"
proof -
  have wf: "wellFormed s" using assms by (rule reachable_wellFormed)
  have b: "0 \<le> bet s" using wf by (simp add: wellFormed_cards)
  have 3: "bet s' = bet s"
    if "reducer r now s a = Inr s' \<and> a \<noteq> RESET_RUN \<and> (phase s = PLAYER \<or> phase s = DEALER)"
    using that reducer_keeps_bet_in_hand [of r now s a s'] by blast
  have 4: "bankroll s' = bankroll s - bet s \<and> phase s' = DONE
      \<and> (phase s = PLAYER \<or> phase s = DEALER)"
    if "reducer r now s a = Inr s' \<and> a \<noteq> RESET_RUN \<and> bankroll s' < bankroll s"
    using that reducer_bankroll [of r now s a s'] b by auto
  from wf 3 4 show ?thesis
    by (auto simp add: wellFormed_cards initialState_fields)
qed

theorem C10_witness:
  "reachable (play [BET_ADD 10, START]) \<and> 0 \<le> bankroll (play [BET_ADD 10, START])
   \<and> phase (play [BET_ADD 10, START]) = PLAYER
   \<and> bet (play [BET_ADD 10, START]) \<le> bankroll (play [BET_ADD 10, START])"
  using C10_bankroll_never_negative [OF play_reachable, of "[BET_ADD 10, START]"]
    play_reachable [of "[BET_ADD 10, START]"] play_start(1)
  by simp

end
